theory Spec2Isabelle
  imports Main "HOL-Library.Word" "HOL-Library.Log_Nat"
begin

section \<open>Deferred timer interrupt with a binary semaphore (src/main.cpp)\<close>

text \<open>
  The sketch has three pieces of code: the timer interrupt service routine \<open>onTimer\<close>,
  the task \<open>printValues\<close> and the bring-up function \<open>setup\<close> (with the empty \<open>loop\<close>).
  They share three globals: \<open>val\<close>, \<open>bin_sem\<close> and \<open>timer\<close>. Every call that leaves the
  sketch (GPIO, ADC, serial port, FreeRTOS, hardware timer) is written into a trace, in
  the order in which the code makes it; a call that blocks is written when it returns.
\<close>

subsection \<open>Constants\<close>

definition pinLed :: nat where
  "pinLed = 23"

definition pinAdc :: nat where
  "pinAdc = 34"

definition timer_divider :: "16 word" where
  "timer_divider = 80"

definition timer_max_count :: "64 word" where
  "timer_max_count = 100000"

text \<open>\<open>APP_CPU_NUM\<close> is 1 (header comment of main.cpp, quoting soc.h).\<close>

definition APP_CPU_NUM :: nat where
  "APP_CPU_NUM = 1"

text \<open>
  The task that runs \<open>setup\<close> and \<open>loop\<close> has priority 1 (comment above \<open>setup\<close>:
  "Main (sul core 1, con priorita 1)").
\<close>

definition loopTask_priority :: nat where
  "loopTask_priority = 1"

text \<open>FreeRTOS macros used by the sketch; the tick rate of the ESP32 Arduino core is 1000 Hz.\<close>

definition portMAX_DELAY :: "32 word" where
  "portMAX_DELAY = 0xFFFFFFFF"

definition configTICK_RATE_HZ :: "32 word" where
  "configTICK_RATE_HZ = 1000"

definition pdMS_TO_TICKS :: "32 word \<Rightarrow> 32 word" where
  "pdMS_TO_TICKS ms = (ms * configTICK_RATE_HZ) div 1000"

text \<open>Declared by the sketch, used nowhere in it.\<close>

definition task_delay :: "32 word" where
  "task_delay = pdMS_TO_TICKS 2000"

subsection \<open>Data\<close>

datatype pin_mode = INPUT | OUTPUT

datatype code_ref = Fn_onTimer | Fn_printValues

record task =
  task_code :: code_ref
  task_name :: string
  task_stack :: "32 word"
  task_params :: "nat option"
  task_priority :: nat
  task_handle_out :: "nat option"
  task_core :: nat

text \<open>
  Modelled from the spec: the Binary Signal, FreeRTOS's binary semaphore, whose code is
  not part of the repository. "One bit of state (signaled/unsignaled) plus an internal
  wait-queue of at most one blocked consumer"; give: "set signaled, release at most one
  waiter"; take: "block until signaled, then clear"; a give on an already-signaled signal
  is a no-op.
\<close>

record semaphore =
  signaled :: bool
  waiting :: bool

record hw_timer =
  t_num :: nat
  t_divider :: "16 word"
  t_countUp :: bool
  t_isr :: "(code_ref \<times> bool) option"
  t_alarm :: "64 word"
  t_autoreload :: bool
  t_alarm_en :: bool

datatype event =
    EvSerialBegin nat
  | EvTaskDelay "32 word"
  | EvPrintln string
  | EvSemaphoreCreateBinary bool
  | EvTaskCreatePinnedToCore task
  | EvPinMode nat pin_mode
  | EvTimerBegin nat "16 word" bool
  | EvTimerAttachInterrupt code_ref bool
  | EvTimerAlarmWrite "64 word" bool
  | EvTimerAlarmEnable
  | EvRestart
  | EvDigitalRead nat int
  | EvDigitalWrite nat "8 word"
  | EvAnalogRead nat "16 word"
  | EvStoreVal "16 word"
  | EvLoadVal "16 word"
  | EvSemaphoreGiveFromISR bool
  | EvYieldFromISR
  | EvSemaphoreTake "32 word" bool

text \<open>
  The globals of the sketch (\<open>val\<close>, \<open>bin_sem\<close>, \<open>timer\<close>; a \<open>NULL\<close> handle is \<open>None\<close>, and
  a handle is identified with the one object it designates), the hardware and kernel
  state the calls act on, and the trace.
\<close>

record sys =
  gpio :: "nat \<Rightarrow> bool"
  pin_modes :: "nat \<Rightarrow> pin_mode option"
  val :: "16 word"
  bin_sem :: "semaphore option"
  timer :: "hw_timer option"
  tasks :: "task list"
  trace :: "event list"

text \<open>
  Why a piece of code does not run to its end: the chip restarts, a \<open>NULL\<close> handle is
  given to a call that needs an object, or the calling task is blocked.
\<close>

datatype stop = Restart | NullHandle | Blocked

type_synonym 'a result = "(stop \<times> sys) + 'a"

definition emit :: "event \<Rightarrow> sys \<Rightarrow> sys" where
  "emit e s = s\<lparr>trace := trace s @ [e]\<rparr>"

text \<open>State at power-on: statics are zero or \<open>NULL\<close>; the pin levels are whatever they are.\<close>

definition boot :: "(nat \<Rightarrow> bool) \<Rightarrow> sys" where
  "boot g = \<lparr>gpio = g, pin_modes = (\<lambda>_. None), val = 0, bin_sem = None, timer = None,
     tasks = [], trace = []\<rparr>"

subsection \<open>Floating point\<close>

text \<open>
  A \<open>float\<close> or \<open>double\<close> is the rational number it denotes. An operation computes the
  exact result and rounds it to the nearest number with \<open>p\<close> significant bits, ties to
  the even significand (IEEE 754 binary32: \<open>p = 24\<close>, binary64: \<open>p = 53\<close>). Infinities
  and NaN are left out: no operation of the sketch overflows, since the numbers it
  computes from a 16-bit sample stay below \<open>2 ^ 18\<close>.
\<close>

definition pow2 :: "int \<Rightarrow> rat" where
  "pow2 k = (if 0 \<le> k then 2 ^ nat k else 1 / 2 ^ nat (- k))"

text \<open>The binade of a nonzero number: \<open>pow2 (expo x) \<le> \<bar>x\<bar> < pow2 (expo x + 1)\<close>.\<close>

definition expo :: "rat \<Rightarrow> int" where
  "expo x = (let (a, b) = quotient_of \<bar>x\<bar>; d = bitlen a - bitlen b
             in if pow2 d \<le> \<bar>x\<bar> then d else d - 1)"

definition rne :: "rat \<Rightarrow> int" where
  "rne q = (let f = \<lfloor>q\<rfloor>; r = q - of_int f
            in if r < 1 / 2 then f else if 1 / 2 < r then f + 1
               else if even f then f else f + 1)"

text \<open>
  Below \<open>pow2 emin\<close>, the smallest normal number, the spacing stays that of the lowest
  binade (subnormal numbers).
\<close>

definition fp_round :: "nat \<Rightarrow> int \<Rightarrow> rat \<Rightarrow> rat" where
  "fp_round p emin x = (if x = 0 then 0
     else let e = max (expo x) emin; u = pow2 (e - int p + 1) in of_int (rne (x / u)) * u)"

definition f32 :: "rat \<Rightarrow> rat" where
  "f32 x = fp_round 24 (- 126) x"

definition f64 :: "rat \<Rightarrow> rat" where
  "f64 x = fp_round 53 (- 1022) x"

text \<open>The cast of a \<open>double\<close> to \<open>int\<close> or \<open>unsigned long\<close> cuts the fraction off.\<close>

definition trunc :: "rat \<Rightarrow> int" where
  "trunc x = (if x < 0 then \<lceil>x\<rceil> else \<lfloor>x\<rfloor>)"

subsection \<open>Serial output\<close>

definition digit_char :: "nat \<Rightarrow> char" where
  "digit_char d = char_of (48 + d)"

fun dec :: "nat \<Rightarrow> string" where
  "dec n = (if n < 10 then [digit_char n] else dec (n div 10) @ [digit_char (n mod 10)])"

declare dec.simps [simp del]

definition print_int :: "int \<Rightarrow> string" where
  "print_int i = (if i < 0 then CHR ''-'' # dec (nat (- i)) else dec (nat i))"

text \<open>
  Modelled from the spec: the output collaborator's number formatting (\<open>Print::println\<close>
  of the Arduino core, not part of the repository): "emit the converted value as text
  with fixed decimal precision", "rounded/truncated to 3 decimals". As the Arduino core
  does it: half a unit of the last digit is added, the integer part is printed, then the
  fractional digits are cut off one at a time, all in \<open>double\<close> arithmetic.
\<close>

fun rounding :: "nat \<Rightarrow> rat \<Rightarrow> rat" where
  "rounding 0 r = r"
| "rounding (Suc i) r = rounding i (f64 (r / 10))"

fun frac_digits :: "nat \<Rightarrow> rat \<Rightarrow> string" where
  "frac_digits 0 remainder = []"
| "frac_digits (Suc digits) remainder =
     (let remainder1 = f64 (remainder * 10);
          toPrint = trunc remainder1
      in print_int toPrint @ frac_digits digits (f64 (remainder1 - of_int toPrint)))"

definition printFloat :: "rat \<Rightarrow> nat \<Rightarrow> string" where
  "printFloat number digits =
     (if number > 4294967040 then ''ovf''
      else if number < - 4294967040 then ''ovf''
      else let sign = (if number < 0 then ''-'' else '''');
               number1 = (if number < 0 then - number else number);
               number2 = f64 (number1 + rounding digits (1 / 2));
               int_part = nat (trunc number2);
               remainder = f64 (number2 - of_nat int_part)
           in sign @ dec int_part @ (if digits > 0 then ''.'' else '''')
              @ frac_digits digits remainder)"

definition Serial_begin :: "nat \<Rightarrow> sys \<Rightarrow> sys" where
  "Serial_begin baud s = emit (EvSerialBegin baud) s"

definition Serial_println :: "string \<Rightarrow> sys \<Rightarrow> sys" where
  "Serial_println line s = emit (EvPrintln line) s"

definition Serial_println_float :: "rat \<Rightarrow> nat \<Rightarrow> sys \<Rightarrow> sys" where
  "Serial_println_float x digits s = emit (EvPrintln (printFloat x digits)) s"

subsection \<open>GPIO and ADC\<close>

text \<open>
  Modelled from the spec: the indicator output is "stored as the pin's last-written
  level (read back before toggling)"; \<open>write_digital\<close> and \<open>read_digital\<close> are
  instantaneous. \<open>digitalRead\<close> returns an \<open>int\<close>, 0 or 1; \<open>digitalWrite\<close> takes a byte and
  drives the pin high when it is not 0.
\<close>

definition digitalRead :: "nat \<Rightarrow> sys \<Rightarrow> int \<times> sys" where
  "digitalRead pin s = (let v = (if gpio s pin then 1 else 0) in (v, emit (EvDigitalRead pin v) s))"

definition digitalWrite :: "nat \<Rightarrow> 8 word \<Rightarrow> sys \<Rightarrow> sys" where
  "digitalWrite pin v s = emit (EvDigitalWrite pin v) (s\<lparr>gpio := (gpio s)(pin := (v \<noteq> 0))\<rparr>)"

definition pinMode :: "nat \<Rightarrow> pin_mode \<Rightarrow> sys \<Rightarrow> sys" where
  "pinMode pin m s = emit (EvPinMode pin m) (s\<lparr>pin_modes := (pin_modes s)(pin := Some m)\<rparr>)"

text \<open>The converter's reading is an input of the model: \<open>analogRead\<close> returns it.\<close>

definition analogRead :: "16 word \<Rightarrow> nat \<Rightarrow> sys \<Rightarrow> 16 word \<times> sys" where
  "analogRead adc pin s = (adc, emit (EvAnalogRead pin adc) s)"

text \<open>The C operator \<open>!\<close> on an \<open>int\<close>, converted to the byte \<open>digitalWrite\<close> takes.\<close>

definition lnot :: "int \<Rightarrow> 8 word" where
  "lnot x = (if x = 0 then 1 else 0)"

subsection \<open>FreeRTOS calls\<close>

definition vTaskDelay :: "32 word \<Rightarrow> sys \<Rightarrow> sys" where
  "vTaskDelay ticks s = emit (EvTaskDelay ticks) s"

text \<open>
  A binary semaphore is created empty (as FreeRTOS documents it); the creation fails
  and returns \<open>NULL\<close> when \<open>ok\<close> is false.
\<close>

definition xSemaphoreCreateBinary :: "bool \<Rightarrow> sys \<Rightarrow> semaphore option \<times> sys" where
  "xSemaphoreCreateBinary ok s =
     ((if ok then Some \<lparr>signaled = False, waiting = False\<rparr> else None),
      emit (EvSemaphoreCreateBinary ok) s)"

text \<open>
  The give reports through \<open>task_woken\<close> whether it made the blocked task runnable;
  the task blocked on the semaphore is \<open>printValues\<close>, of higher priority than what it
  interrupts.
\<close>

definition xSemaphoreGiveFromISR :: "semaphore option \<Rightarrow> sys \<Rightarrow> (bool \<times> sys) result" where
  "xSemaphoreGiveFromISR h s =
     (case h of
        None \<Rightarrow> Inl (NullHandle, s)
      | Some q \<Rightarrow>
          if signaled q then Inr (False, emit (EvSemaphoreGiveFromISR False) s)
          else Inr (waiting q,
                 emit (EvSemaphoreGiveFromISR (waiting q))
                   (s\<lparr>bin_sem := Some \<lparr>signaled = True, waiting = False\<rparr>\<rparr>)))"

text \<open>
  A take of a signaled semaphore clears it and returns true. Of an empty one: with
  \<open>portMAX_DELAY\<close> the caller is blocked until a give, with a shorter wait the call
  returns false when the time is over.
\<close>

definition xSemaphoreTake :: "semaphore option \<Rightarrow> 32 word \<Rightarrow> sys \<Rightarrow> (bool \<times> sys) result" where
  "xSemaphoreTake h ticks s =
     (case h of
        None \<Rightarrow> Inl (NullHandle, s)
      | Some q \<Rightarrow>
          if signaled q
          then Inr (True, emit (EvSemaphoreTake ticks True)
                      (s\<lparr>bin_sem := Some (q\<lparr>signaled := False\<rparr>)\<rparr>))
          else if ticks = portMAX_DELAY
          then Inl (Blocked, s\<lparr>bin_sem := Some (q\<lparr>waiting := True\<rparr>)\<rparr>)
          else Inr (False, emit (EvSemaphoreTake ticks False) s))"

definition portYIELD_FROM_ISR :: "sys \<Rightarrow> sys" where
  "portYIELD_FROM_ISR s = emit EvYieldFromISR s"

text \<open>
  Modelled from the spec: \<open>create_task(entry_fn, stack_size, priority, core_affinity)\<close>
  "schedules a new unit of work; returns nothing checked by this core (failure is out of
  scope here)".
\<close>

definition xTaskCreatePinnedToCore ::
  "code_ref \<Rightarrow> string \<Rightarrow> 32 word \<Rightarrow> nat option \<Rightarrow> nat \<Rightarrow> nat option \<Rightarrow> nat \<Rightarrow> sys \<Rightarrow> sys" where
  "xTaskCreatePinnedToCore f name stack params prio handle core s =
     (let t = \<lparr>task_code = f, task_name = name, task_stack = stack, task_params = params,
                task_priority = prio, task_handle_out = handle, task_core = core\<rparr>
      in emit (EvTaskCreatePinnedToCore t) (s\<lparr>tasks := tasks s @ [t]\<rparr>))"

definition ESP_restart :: "sys \<Rightarrow> sys" where
  "ESP_restart s = emit EvRestart s"

subsection \<open>Hardware timer\<close>

text \<open>The chip has four timers; \<open>timerBegin\<close> returns \<open>NULL\<close> for any other number.\<close>

definition timerBegin :: "nat \<Rightarrow> 16 word \<Rightarrow> bool \<Rightarrow> sys \<Rightarrow> hw_timer option \<times> sys" where
  "timerBegin num divider countUp s =
     ((if num < 4
       then Some \<lparr>t_num = num, t_divider = divider, t_countUp = countUp, t_isr = None,
                  t_alarm = 0, t_autoreload = False, t_alarm_en = False\<rparr>
       else None),
      emit (EvTimerBegin num divider countUp) s)"

definition timerAttachInterrupt :: "hw_timer option \<Rightarrow> code_ref \<Rightarrow> bool \<Rightarrow> sys \<Rightarrow> sys result" where
  "timerAttachInterrupt h f edge s =
     (case h of
        None \<Rightarrow> Inl (NullHandle, s)
      | Some t \<Rightarrow> Inr (emit (EvTimerAttachInterrupt f edge)
                        (s\<lparr>timer := Some (t\<lparr>t_isr := Some (f, edge)\<rparr>)\<rparr>)))"

definition timerAlarmWrite :: "hw_timer option \<Rightarrow> 64 word \<Rightarrow> bool \<Rightarrow> sys \<Rightarrow> sys result" where
  "timerAlarmWrite h count autoreload s =
     (case h of
        None \<Rightarrow> Inl (NullHandle, s)
      | Some t \<Rightarrow> Inr (emit (EvTimerAlarmWrite count autoreload)
                        (s\<lparr>timer := Some (t\<lparr>t_alarm := count, t_autoreload := autoreload\<rparr>)\<rparr>)))"

definition timerAlarmEnable :: "hw_timer option \<Rightarrow> sys \<Rightarrow> sys result" where
  "timerAlarmEnable h s =
     (case h of
        None \<Rightarrow> Inl (NullHandle, s)
      | Some t \<Rightarrow> Inr (emit EvTimerAlarmEnable (s\<lparr>timer := Some (t\<lparr>t_alarm_en := True\<rparr>)\<rparr>)))"

definition armed :: "sys \<Rightarrow> bool" where
  "armed s = (case timer s of None \<Rightarrow> False | Some t \<Rightarrow> t_alarm_en t)"

subsection \<open>The interrupt service routine\<close>

definition store_val :: "16 word \<Rightarrow> sys \<Rightarrow> sys" where
  "store_val v s = emit (EvStoreVal v) (s\<lparr>val := v\<rparr>)"

definition load_val :: "sys \<Rightarrow> 16 word \<times> sys" where
  "load_val s = (val s, emit (EvLoadVal (val s)) s)"

definition onTimer :: "16 word \<Rightarrow> sys \<Rightarrow> sys result" where
  "onTimer adc s0 =
     (let (pin_state, s1) = digitalRead pinLed s0;
          s2 = digitalWrite pinLed (lnot pin_state) s1;
          (sample, s3) = analogRead adc pinAdc s2;
          s4 = store_val sample s3
      in case xSemaphoreGiveFromISR (bin_sem s4) s4 of
           Inl e \<Rightarrow> Inl e
         | Inr (task_woken, s5) \<Rightarrow>
             Inr (if task_woken then portYIELD_FROM_ISR s5 else s5))"

subsection \<open>The task\<close>

text \<open>\<open>volt = (float) val * 3.3 / 4096.0\<close>: the product and the quotient are \<open>double\<close>.\<close>

definition to_volt :: "16 word \<Rightarrow> rat" where
  "to_volt raw = f32 (f64 (f64 (f32 (of_nat (unat raw)) * f64 (33 / 10)) / f64 4096))"

text \<open>
  One turn of the \<open>while (1)\<close> loop: its three statements in a row, with no interrupt
  in between.
\<close>

definition printValues_body :: "sys \<Rightarrow> sys result" where
  "printValues_body s0 =
     (case xSemaphoreTake (bin_sem s0) portMAX_DELAY s0 of
        Inl e \<Rightarrow> Inl e
      | Inr (_, s1) \<Rightarrow>
          (let (raw, s2) = load_val s1;
               volt = to_volt raw
           in Inr (Serial_println_float volt 3 s2)))"

text \<open>
  The task, statement by statement. A point of \<open>printValues\<close> is where the task is about
  to take the semaphore (line 78), about to read and convert \<open>val\<close> (line 79), about to
  print \<open>volt\<close> (line 80), or past the loop, at the end of the function.
  \<open>printValues pc s\<close> runs the statement at \<open>pc\<close> and gives the point that follows it:
  \<open>while (1)\<close> leads from the print back to the take, and no statement leads past the
  loop. A take that blocks leaves the task where it is.
\<close>

datatype task_pc = Taking | Converting | Printing rat | AfterLoop

definition printValues :: "task_pc \<Rightarrow> sys \<Rightarrow> (task_pc \<times> sys) result" where
  "printValues pc s =
     (case pc of
        Taking \<Rightarrow>
          (case xSemaphoreTake (bin_sem s) portMAX_DELAY s of
             Inl e \<Rightarrow> Inl e
           | Inr (_, s1) \<Rightarrow> Inr (Converting, s1))
      | Converting \<Rightarrow> (let (raw, s2) = load_val s in Inr (Printing (to_volt raw), s2))
      | Printing volt \<Rightarrow> Inr (Taking, Serial_println_float volt 3 s)
      | AfterLoop \<Rightarrow> Inr (AfterLoop, s))"

subsection \<open>Bring-up\<close>

definition banner :: string where
  "banner = ''FreeRTOS Software timer: demo 3 - interrupt differito con semaforo''"

definition diagnostic :: string where
  "diagnostic = ''ERRORE: impossibile creare il semaforo''"

text \<open>
  The function \<open>setup\<close> of the sketch. \<open>ESP.restart()\<close> does not return: nothing after
  it runs.
\<close>

definition setup_sketch :: "bool \<Rightarrow> sys \<Rightarrow> sys result" where
  "setup_sketch sem_ok s0 =
     (let s1 = Serial_begin 115200 s0;
          s2 = vTaskDelay (pdMS_TO_TICKS 1000) s1;
          s3 = Serial_println [] s2;
          s4 = Serial_println banner s3;
          (h, s5) = xSemaphoreCreateBinary sem_ok s4;
          s6 = s5\<lparr>bin_sem := h\<rparr>
      in if bin_sem s6 = None
         then Inl (Restart, ESP_restart (Serial_println diagnostic s6))
         else
           (let s7 = xTaskCreatePinnedToCore Fn_printValues ''Print values'' 1024 None 2 None
                       APP_CPU_NUM s6;
                s8 = pinMode pinLed OUTPUT s7;
                (t, s9) = timerBegin 0 timer_divider True s8;
                s10 = s9\<lparr>timer := t\<rparr>
            in case timerAttachInterrupt (timer s10) Fn_onTimer True s10 of
                 Inl e \<Rightarrow> Inl e
               | Inr s11 \<Rightarrow>
                   (case timerAlarmWrite (timer s11) timer_max_count True s11 of
                      Inl e \<Rightarrow> Inl e
                    | Inr s12 \<Rightarrow> timerAlarmEnable (timer s12) s12)))"

definition loop :: "sys \<Rightarrow> sys" where
  "loop s = s"

subsection \<open>Runs\<close>

text \<open>Timer interrupts one after the other, with no take in between; one reading each.\<close>

fun isr_burst :: "16 word list \<Rightarrow> sys \<Rightarrow> sys result" where
  "isr_burst [] s = Inr s"
| "isr_burst (adc # rest) s =
     (case onTimer adc s of Inl e \<Rightarrow> Inl e | Inr s' \<Rightarrow> isr_burst rest s')"

text \<open>The routine the timer calls when its count reaches the alarm, if the alarm is enabled.\<close>

definition timer_routine :: "sys \<Rightarrow> code_ref option" where
  "timer_routine s =
     (case timer s of
        None \<Rightarrow> None
      | Some t \<Rightarrow> if t_alarm_en t then map_option fst (t_isr t) else None)"

text \<open>
  Any schedule: the timer count reaching the alarm value (with the reading the converter
  would give), or the task running its next statement. Without an enabled alarm nothing
  happens at the alarm value. A step of a task blocked in the take leaves it blocked,
  and the schedule goes on. An interrupt can fall between any two statements of the
  task, also between the take and the read of \<open>val\<close>.
\<close>

datatype action = Tick "16 word" | Step

fun run :: "action list \<Rightarrow> task_pc \<times> sys \<Rightarrow> (task_pc \<times> sys) result" where
  "run [] c = Inr c"
| "run (Tick adc # rest) (pc, s) =
     (if timer_routine s = Some Fn_onTimer
      then case onTimer adc s of Inl e \<Rightarrow> Inl e | Inr s' \<Rightarrow> run rest (pc, s')
      else run rest (pc, s))"
| "run (Step # rest) (pc, s) =
     (case printValues pc s of
        Inl (Blocked, s') \<Rightarrow> run rest (pc, s')
      | Inl e \<Rightarrow> Inl e
      | Inr c' \<Rightarrow> run rest c')"


text \<open>The calls that the task makes, as against those of the interrupt routine.\<close>

definition task_event :: "event \<Rightarrow> bool" where
  "task_event e =
     (case e of EvSemaphoreTake _ _ \<Rightarrow> True | EvLoadVal _ \<Rightarrow> True | EvPrintln _ \<Rightarrow> True
      | _ \<Rightarrow> False)"


definition events :: "sys result \<Rightarrow> event list" where
  "events r = (case r of Inl (_, s) \<Rightarrow> trace s | Inr s \<Rightarrow> trace s)"

text \<open>
  The construction order of a trace: whenever the alarm is enabled, the semaphore has
  been created with success and the task \<open>printValues\<close> has been created.
\<close>

fun created_before_armed :: "bool \<Rightarrow> bool \<Rightarrow> event list \<Rightarrow> bool" where
  "created_before_armed sem tsk [] = True"
| "created_before_armed sem tsk (EvSemaphoreCreateBinary ok # es) =
     created_before_armed (sem \<or> ok) tsk es"
| "created_before_armed sem tsk (EvTaskCreatePinnedToCore t # es) =
     created_before_armed sem (tsk \<or> task_code t = Fn_printValues) es"
| "created_before_armed sem tsk (EvTimerAlarmEnable # es) =
     (sem \<and> tsk \<and> created_before_armed sem tsk es)"
| "created_before_armed sem tsk (_ # es) = created_before_armed sem tsk es"

subsection \<open>Notions used in the statements and proofs\<close>

text \<open>A number with a significand of at most \<open>p\<close> bits (only used in proofs).\<close>

definition representable :: "nat \<Rightarrow> int \<Rightarrow> rat \<Rightarrow> bool" where
  "representable p emin x =
     (\<exists>m k. x = of_int m * pow2 k \<and> \<bar>m\<bar> < 2 ^ p \<and> emin - int p + 1 \<le> k)"

definition is_digit :: "char \<Rightarrow> bool" where
  "is_digit c = (c \<in> set ''0123456789'')"

section \<open>Properties\<close>

subsection \<open>What each function does, in closed form\<close>

lemmas isr_calls = emit_def digitalRead_def digitalWrite_def analogRead_def store_val_def
  xSemaphoreGiveFromISR_def portYIELD_FROM_ISR_def lnot_def

lemmas task_calls = emit_def load_val_def xSemaphoreTake_def Serial_println_float_def

lemmas setup_calls = emit_def Serial_begin_def vTaskDelay_def Serial_println_def
  xSemaphoreCreateBinary_def ESP_restart_def xTaskCreatePinnedToCore_def pinMode_def
  timerBegin_def timerAttachInterrupt_def timerAlarmWrite_def timerAlarmEnable_def
  pdMS_TO_TICKS_def configTICK_RATE_HZ_def Let_def

lemma onTimer_Some:
  "bin_sem s = Some q \<Longrightarrow>
   onTimer adc s = Inr (s\<lparr>gpio := (gpio s)(pinLed := \<not> gpio s pinLed), val := adc,
       bin_sem := (if signaled q then Some q else Some \<lparr>signaled = True, waiting = False\<rparr>),
       trace := trace s @ [EvDigitalRead pinLed (if gpio s pinLed then 1 else 0),
                           EvDigitalWrite pinLed (if gpio s pinLed then 0 else 1),
                           EvAnalogRead pinAdc adc, EvStoreVal adc,
                           EvSemaphoreGiveFromISR (\<not> signaled q \<and> waiting q)]
                @ (if \<not> signaled q \<and> waiting q then [EvYieldFromISR] else [])\<rparr>)"
  by (simp add: onTimer_def isr_calls)

lemma onTimer_None: "bin_sem s = None \<Longrightarrow> \<exists>s'. onTimer adc s = Inl (NullHandle, s')"
  by (simp add: onTimer_def isr_calls)

lemma body_signaled:
  "bin_sem s = Some q \<Longrightarrow> signaled q \<Longrightarrow>
   printValues_body s = Inr (s\<lparr>bin_sem := Some (q\<lparr>signaled := False\<rparr>),
       trace := trace s @ [EvSemaphoreTake portMAX_DELAY True, EvLoadVal (val s),
                           EvPrintln (printFloat (to_volt (val s)) 3)]\<rparr>)"
  by (simp add: printValues_body_def task_calls)

lemma body_blocked:
  "bin_sem s = Some q \<Longrightarrow> \<not> signaled q \<Longrightarrow>
   printValues_body s = Inl (Blocked, s\<lparr>bin_sem := Some (q\<lparr>waiting := True\<rparr>)\<rparr>)"
  by (simp add: printValues_body_def task_calls)

lemma take_signaled:
  "bin_sem s = Some q \<Longrightarrow> signaled q \<Longrightarrow>
   printValues Taking s = Inr (Converting, s\<lparr>bin_sem := Some (q\<lparr>signaled := False\<rparr>),
       trace := trace s @ [EvSemaphoreTake portMAX_DELAY True]\<rparr>)"
  by (simp add: printValues_def task_calls)

lemma take_blocked:
  "bin_sem s = Some q \<Longrightarrow> \<not> signaled q \<Longrightarrow>
   printValues Taking s = Inl (Blocked, s\<lparr>bin_sem := Some (q\<lparr>waiting := True\<rparr>)\<rparr>)"
  by (simp add: printValues_def task_calls)

lemma convert_step:
  "printValues Converting s
     = Inr (Printing (to_volt (val s)), s\<lparr>trace := trace s @ [EvLoadVal (val s)]\<rparr>)"
  by (simp add: printValues_def task_calls)

lemma print_step:
  "printValues (Printing volt) s
     = Inr (Taking, s\<lparr>trace := trace s @ [EvPrintln (printFloat volt 3)]\<rparr>)"
  by (simp add: printValues_def task_calls)

lemma setup_ok:
  "setup_sketch True s0 = Inr (s0\<lparr>
      pin_modes := (pin_modes s0)(pinLed := Some OUTPUT),
      bin_sem := Some \<lparr>signaled = False, waiting = False\<rparr>,
      timer := Some \<lparr>t_num = 0, t_divider = timer_divider, t_countUp = True,
                      t_isr = Some (Fn_onTimer, True), t_alarm = timer_max_count,
                      t_autoreload = True, t_alarm_en = True\<rparr>,
      tasks := tasks s0 @ [\<lparr>task_code = Fn_printValues, task_name = ''Print values'',
                 task_stack = 1024, task_params = None, task_priority = 2,
                 task_handle_out = None, task_core = APP_CPU_NUM\<rparr>],
      trace := trace s0 @ [EvSerialBegin 115200, EvTaskDelay 1000, EvPrintln [],
                 EvPrintln banner, EvSemaphoreCreateBinary True,
                 EvTaskCreatePinnedToCore \<lparr>task_code = Fn_printValues,
                   task_name = ''Print values'', task_stack = 1024, task_params = None,
                   task_priority = 2, task_handle_out = None, task_core = APP_CPU_NUM\<rparr>,
                 EvPinMode pinLed OUTPUT, EvTimerBegin 0 timer_divider True,
                 EvTimerAttachInterrupt Fn_onTimer True,
                 EvTimerAlarmWrite timer_max_count True, EvTimerAlarmEnable]\<rparr>)"
  by (simp add: setup_sketch_def setup_calls)

lemma setup_fail:
  "setup_sketch False s0 = Inl (Restart, s0\<lparr>bin_sem := None,
      trace := trace s0 @ [EvSerialBegin 115200, EvTaskDelay 1000, EvPrintln [],
                 EvPrintln banner, EvSemaphoreCreateBinary False, EvPrintln diagnostic,
                 EvRestart]\<rparr>)"
  by (simp add: setup_sketch_def setup_calls)

lemma isr_burst_Some:
  "bin_sem s = Some q \<Longrightarrow> rs \<noteq> [] \<Longrightarrow>
   \<exists>s1. isr_burst rs s = Inr s1
     \<and> bin_sem s1 = Some \<lparr>signaled = True, waiting = (signaled q \<and> waiting q)\<rparr>
     \<and> val s1 = last rs"
proof (induction rs arbitrary: s q)
  case Nil
  then show ?case by simp
next
  case (Cons adc rest)
  obtain s' where s': "onTimer adc s = Inr s'"
    and sem': "bin_sem s' = Some \<lparr>signaled = True, waiting = (signaled q \<and> waiting q)\<rparr>"
    and val': "val s' = adc"
    using Cons.prems(1) by (cases q) (simp add: onTimer_Some)
  show ?case
  proof (cases "rest = []")
    case True
    with s' sem' val' show ?thesis by simp
  next
    case False
    from Cons.IH [OF sem' False] s' show ?thesis using False by auto
  qed
qed


text \<open>
  After a bring-up that got its semaphore, no schedule of interrupts and statements ever
  meets a \<open>NULL\<close> semaphore or leaves the loop: the hypothesis \<open>bin_sem s = Some q\<close> of the
  statements below holds in every state the running system reaches.
\<close>

lemma run_keeps_semaphore:
  "bin_sem s \<noteq> None \<Longrightarrow> pc \<noteq> AfterLoop \<Longrightarrow>
   \<exists>pc' s'. run acts (pc, s) = Inr (pc', s') \<and> pc' \<noteq> AfterLoop \<and> bin_sem s' \<noteq> None"
proof (induction acts arbitrary: pc s)
  case Nil
  then show ?case by simp
next
  case (Cons a acts)
  from Cons.prems obtain q where q: "bin_sem s = Some q" by auto
  show ?case
  proof (cases a)
    case (Tick adc)
    have "\<exists>s1. onTimer adc s = Inr s1 \<and> bin_sem s1 \<noteq> None"
      using q by (simp add: onTimer_Some)
    then show ?thesis using Cons.IH [of _ pc] Cons.prems Tick by auto
  next
    case Step
    have "\<exists>pc1 s1. (printValues pc s = Inr (pc1, s1) \<or> printValues pc s = Inl (Blocked, s1) \<and> pc1 = pc)
        \<and> pc1 \<noteq> AfterLoop \<and> bin_sem s1 \<noteq> None"
    proof (cases pc)
      case Taking
      then show ?thesis using q by (cases "signaled q") (simp_all add: take_signaled take_blocked)
    next
      case Converting
      then show ?thesis using q by (simp add: convert_step)
    next
      case (Printing volt)
      then show ?thesis using q by (simp add: print_step)
    next
      case AfterLoop
      then show ?thesis using Cons.prems by simp
    qed
    then obtain pc1 s1 where
      step: "printValues pc s = Inr (pc1, s1) \<or> printValues pc s = Inl (Blocked, s1) \<and> pc1 = pc"
      and keep: "pc1 \<noteq> AfterLoop" "bin_sem s1 \<noteq> None"
      by blast
    from step have "run (a # acts) (pc, s) = run acts (pc1, s1)" using Step by auto
    then show ?thesis using Cons.IH [OF keep(2) keep(1)] by simp
  qed
qed

lemma run_after_setup:
  "\<exists>s pc' s'. setup_sketch True s0 = Inr s \<and> run acts (Taking, s) = Inr (pc', s')
     \<and> pc' \<noteq> AfterLoop \<and> bin_sem s' \<noteq> None"
proof -
  obtain s where s: "setup_sketch True s0 = Inr s" "bin_sem s \<noteq> None"
    by (simp add: setup_ok)
  from run_keeps_semaphore [OF s(2), of Taking acts] s(1) show ?thesis by auto
qed

text \<open>Before the alarm is enabled the routine does not run, whatever the timer counts.\<close>

lemma no_interrupt_before_arming:
  "\<not> armed s \<Longrightarrow> run (map Tick readings) (pc, s) = Inr (pc, s)"
  by (induction readings) (auto simp: timer_routine_def armed_def split: option.splits)

lemma routine_after_setup:
  "\<exists>s. setup_sketch True s0 = Inr s \<and> timer_routine s = Some Fn_onTimer"
  by (simp add: setup_ok timer_routine_def)



text \<open>
  An interrupt between the take and the read of \<open>val\<close>: the turn reads the later
  reading, and the give of that interrupt releases one more turn, which prints the same
  reading again.
\<close>

lemma interrupt_inside_turn:
  assumes "bin_sem s = Some q" and "timer_routine s = Some Fn_onTimer"
  shows "\<exists>s'. run [Tick a, Step, Tick b, Step, Step, Step, Step, Step] (Taking, s)
        = Inr (Taking, s')
    \<and> filter task_event (trace s') = filter task_event (trace s)
          @ [EvSemaphoreTake portMAX_DELAY True, EvLoadVal b, EvPrintln (printFloat (to_volt b) 3),
             EvSemaphoreTake portMAX_DELAY True, EvLoadVal b, EvPrintln (printFloat (to_volt b) 3)]"
  using assms
  by (cases q)
    (simp add: onTimer_Some take_signaled convert_step print_step timer_routine_def
      task_event_def)

text \<open>A trace that enables the alarm before the creations fails the check.\<close>

lemma created_before_armed_rejects:
  "\<not> created_before_armed False False
       [EvTimerAlarmEnable, EvSemaphoreCreateBinary True,
        EvTaskCreatePinnedToCore \<lparr>task_code = Fn_printValues, task_name = ''Print values'',
          task_stack = 1024, task_params = None, task_priority = 2,
          task_handle_out = None, task_core = APP_CPU_NUM\<rparr>]"
  by simp

subsection \<open>Powers of two and binades\<close>

lemma pow2_powi: "pow2 k = 2 powi k"
  by (simp add: pow2_def power_int_def field_simps)

lemma pow2_pos [simp]: "0 < pow2 k"
  by (simp add: pow2_powi)

lemma pow2_add: "pow2 (a + b) = pow2 a * pow2 b"
  by (simp add: pow2_powi power_int_add)

lemma pow2_diff: "pow2 (a - b) = pow2 a / pow2 b"
  by (simp add: pow2_powi power_int_diff)

lemma pow2_strict_mono: "a < b \<Longrightarrow> pow2 a < pow2 b"
  unfolding pow2_powi by (rule power_int_strict_increasing) simp_all

lemma pow2_less_iff [simp]: "pow2 a < pow2 b \<longleftrightarrow> a < b"
proof
  assume "pow2 a < pow2 b"
  show "a < b"
  proof (rule ccontr)
    assume "\<not> a < b"
    then have "b < a \<or> b = a" by auto
    then have "pow2 b \<le> pow2 a" using pow2_strict_mono [of b a] by auto
    with \<open>pow2 a < pow2 b\<close> show False by simp
  qed
qed (rule pow2_strict_mono)

lemma pow2_le_iff [simp]: "pow2 a \<le> pow2 b \<longleftrightarrow> a \<le> b"
  using pow2_less_iff [of b a] by (simp only: not_less [symmetric])

lemma pow2_nat: "pow2 (int n) = 2 ^ n"
  by (simp add: pow2_def)

lemma pow2_0 [simp]: "pow2 0 = 1"
  by (simp add: pow2_def)

lemma expo_bounds:
  assumes "x \<noteq> 0"
  shows "pow2 (expo x) \<le> \<bar>x\<bar>" and "\<bar>x\<bar> < pow2 (expo x + 1)"
proof -
  obtain a b where q: "quotient_of \<bar>x\<bar> = (a, b)" by (cases "quotient_of \<bar>x\<bar>")
  have b: "0 < b" using q by (rule quotient_of_denom_pos)
  have x: "\<bar>x\<bar> = of_int a / of_int b" using q by (rule quotient_of_div)
  have a: "0 < a"
  proof -
    have "0 < \<bar>x\<bar>" using assms by simp
    then have "0 < (of_int a :: rat) / of_int b" using x by simp
    then show ?thesis using b by (simp add: zero_less_divide_iff)
  qed
  define d where "d = bitlen a - bitlen b"
  have la: "2 ^ nat (bitlen a - 1) \<le> a" "a < 2 ^ nat (bitlen a)"
    using bitlen_bounds [OF a] by auto
  have lb: "2 ^ nat (bitlen b - 1) \<le> b" "b < 2 ^ nat (bitlen b)"
    using bitlen_bounds [OF b] by auto
  have pa: "0 < bitlen a" using a bitlen_eq_zero_iff [of a] bitlen_nonneg [of a] by linarith
  have pb: "0 < bitlen b" using b bitlen_eq_zero_iff [of b] bitlen_nonneg [of b] by linarith
  have A1: "pow2 (bitlen a - 1) \<le> of_int a"
  proof -
    have "(of_int (2 ^ nat (bitlen a - 1)) :: rat) \<le> of_int a" using la(1) by (simp only: of_int_le_iff)
    then show ?thesis using pa by (simp add: pow2_def)
  qed
  have A2: "of_int a < pow2 (bitlen a)"
  proof -
    have "(of_int a :: rat) < of_int (2 ^ nat (bitlen a))" using la(2) by (simp only: of_int_less_iff)
    then show ?thesis using pa by (simp add: pow2_def)
  qed
  have B1: "pow2 (bitlen b - 1) \<le> of_int b"
  proof -
    have "(of_int (2 ^ nat (bitlen b - 1)) :: rat) \<le> of_int b" using lb(1) by (simp only: of_int_le_iff)
    then show ?thesis using pb by (simp add: pow2_def)
  qed
  have B2: "of_int b < pow2 (bitlen b)"
  proof -
    have "(of_int b :: rat) < of_int (2 ^ nat (bitlen b))" using lb(2) by (simp only: of_int_less_iff)
    then show ?thesis using pb by (simp add: pow2_def)
  qed
  have bq: "(0::rat) < of_int b" using b by simp
  have lo: "pow2 (d - 1) < \<bar>x\<bar>"
  proof -
    have "pow2 (d - 1) * of_int b < pow2 (d - 1) * pow2 (bitlen b)"
      using B2 by simp
    also have "\<dots> = pow2 (bitlen a - 1)"
      by (simp add: d_def pow2_add [symmetric])
    also have "\<dots> \<le> of_int a" by (rule A1)
    finally show ?thesis using bq by (simp add: x pos_less_divide_eq)
  qed
  have hi: "\<bar>x\<bar> < pow2 (d + 1)"
  proof -
    have "of_int a < pow2 (bitlen a)" by (rule A2)
    also have "\<dots> = pow2 (d + 1) * pow2 (bitlen b - 1)"
      by (simp add: d_def pow2_add [symmetric])
    also have "\<dots> \<le> pow2 (d + 1) * of_int b"
      using B1 by simp
    finally show ?thesis using bq by (simp add: x pos_divide_less_eq)
  qed
  have e: "expo x = (if pow2 d \<le> \<bar>x\<bar> then d else d - 1)"
    by (simp add: expo_def q d_def Let_def)
  show "pow2 (expo x) \<le> \<bar>x\<bar>" using lo by (simp add: e)
  show "\<bar>x\<bar> < pow2 (expo x + 1)" using hi by (simp add: e)
qed

lemma expo_unique:
  assumes "pow2 e \<le> \<bar>x\<bar>" and "\<bar>x\<bar> < pow2 (e + 1)"
  shows "expo x = e"
proof -
  have nz: "x \<noteq> 0" using assms(1) pow2_pos [of e] by (auto simp del: pow2_pos)
  have "pow2 e < pow2 (expo x + 1)"
    using assms(1) expo_bounds(2) [OF nz] by (rule le_less_trans)
  moreover have "pow2 (expo x) < pow2 (e + 1)"
    using expo_bounds(1) [OF nz] assms(2) by (rule le_less_trans)
  ultimately show ?thesis by simp
qed

lemma expo_mono:
  assumes "0 < x" and "x \<le> y"
  shows "expo x \<le> expo y"
proof (rule ccontr)
  assume "\<not> expo x \<le> expo y"
  then have "expo y + 1 \<le> expo x" by simp
  then have "pow2 (expo y + 1) \<le> pow2 (expo x)" by simp
  also have "\<dots> \<le> \<bar>x\<bar>" using assms(1) by (intro expo_bounds) simp
  also have "\<dots> \<le> \<bar>y\<bar>" using assms by simp
  also have "\<dots> < pow2 (expo y + 1)" using assms by (intro expo_bounds) simp
  finally show False by simp
qed

subsection \<open>Rounding to nearest\<close>

lemma rne_of_int [simp]: "rne (of_int n) = n"
  by (simp add: rne_def)

lemma rne_cases: "rne x = \<lfloor>x\<rfloor> \<or> rne x = \<lfloor>x\<rfloor> + 1"
  by (simp add: rne_def Let_def)

lemma rne_mono:
  assumes "x \<le> y"
  shows "rne x \<le> rne y"
proof (cases "\<lfloor>x\<rfloor> < \<lfloor>y\<rfloor>")
  case True
  have "rne x \<le> \<lfloor>x\<rfloor> + 1" using rne_cases [of x] by auto
  also have "\<dots> \<le> \<lfloor>y\<rfloor>" using True by simp
  also have "\<dots> \<le> rne y" using rne_cases [of y] by auto
  finally show ?thesis .
next
  case False
  then have eq: "\<lfloor>x\<rfloor> = \<lfloor>y\<rfloor>" using assms floor_mono [of x y] by simp
  show ?thesis using assms by (auto simp: rne_def Let_def eq)
qed

lemma rne_err: "\<bar>of_int (rne x) - x\<bar> \<le> 1 / 2"
proof -
  define r where "r = x - of_int \<lfloor>x\<rfloor>"
  have r: "0 \<le> r" "r < 1" unfolding r_def by linarith+
  have x: "x = of_int \<lfloor>x\<rfloor> + r" by (simp add: r_def)
  consider "r < 1 / 2" | "1 / 2 < r" | "r = 1 / 2" by linarith
  then show ?thesis
  proof cases
    case 1
    then have "rne x = \<lfloor>x\<rfloor>" by (simp add: rne_def Let_def r_def)
    then have "of_int (rne x) - x = - r" by (simp add: r_def)
    then show ?thesis using r 1 by (simp add: abs_if)
  next
    case 2
    then have "rne x = \<lfloor>x\<rfloor> + 1" by (simp add: rne_def Let_def r_def)
    then have "of_int (rne x) - x = 1 - r" by (simp add: r_def)
    then show ?thesis using r 2 by (simp add: abs_if)
  next
    case 3
    have "rne x = \<lfloor>x\<rfloor> \<or> rne x = \<lfloor>x\<rfloor> + 1" by (rule rne_cases)
    then have "of_int (rne x) - x = - r \<or> of_int (rne x) - x = 1 - r"
      by (auto simp: r_def)
    then show ?thesis using 3 by (auto simp: abs_if)
  qed
qed

lemma pow2_nonneg [simp]: "0 \<le> pow2 k"
  using pow2_pos [of k] by (simp only: less_imp_le)

lemma pow2_int_nat: "0 \<le> k \<Longrightarrow> pow2 k = of_int (2 ^ nat k)"
  by (simp add: pow2_def)

lemma scaled_upper:
  assumes "0 < x"
  shows "x / pow2 (max (expo x) emin - int p + 1) < pow2 (int p)"
proof -
  have nz: "x \<noteq> 0" using assms by simp
  have "x < pow2 (expo x + 1)" using expo_bounds(2) [OF nz] assms by simp
  also have "\<dots> \<le> pow2 (max (expo x) emin + 1)" by simp
  also have "\<dots> = pow2 (int p) * pow2 (max (expo x) emin - int p + 1)"
    by (simp add: pow2_add [symmetric])
  finally show ?thesis by (simp add: pos_divide_less_eq)
qed

lemma scaled_lower:
  assumes "0 < x" and "emin \<le> expo x"
  shows "pow2 (int p - 1) \<le> x / pow2 (max (expo x) emin - int p + 1)"
proof -
  have nz: "x \<noteq> 0" using assms by simp
  have e: "max (expo x) emin = expo x" using assms(2) by simp
  have "pow2 (int p - 1) * pow2 (expo x - int p + 1) = pow2 (expo x)"
    by (simp add: pow2_add [symmetric])
  also have "\<dots> \<le> x" using expo_bounds(1) [OF nz] assms by simp
  finally show ?thesis by (simp add: e pos_le_divide_eq)
qed

lemma fp_round_pos:
  assumes "0 < x"
  obtains m where "fp_round p emin x = of_int m * pow2 (max (expo x) emin - int p + 1)"
    and "m = rne (x / pow2 (max (expo x) emin - int p + 1))"
    and "0 \<le> m" and "m \<le> 2 ^ p"
    and "emin \<le> expo x \<Longrightarrow> 0 < p \<Longrightarrow> 2 ^ (p - 1) \<le> m"
proof -
  define u where "u = pow2 (max (expo x) emin - int p + 1)"
  define m where "m = rne (x / u)"
  have fp: "fp_round p emin x = of_int m * u"
    using assms by (simp add: fp_round_def Let_def u_def m_def)
  have p2: "pow2 (int p) = of_int (2 ^ p)"
    using pow2_int_nat [of "int p"] by simp
  have "rne (x / u) \<le> rne (of_int (2 ^ p))"
    using scaled_upper [OF assms, of emin p] unfolding u_def p2 by (intro rne_mono) simp
  then have hi: "m \<le> 2 ^ p" by (simp only: rne_of_int m_def)
  have "0 \<le> x / u" using assms by (simp add: u_def)
  then have "rne (of_int 0) \<le> rne (x / u)" by (intro rne_mono) simp
  then have nn: "0 \<le> m" by (simp only: rne_of_int m_def)
  have lo: "2 ^ (p - 1) \<le> m" if "emin \<le> expo x" and "0 < p"
  proof -
    have p1: "pow2 (int p - 1) = of_int (2 ^ (p - 1))"
      using that(2) pow2_int_nat [of "int p - 1"] by (simp add: nat_diff_distrib')
    have "rne (of_int (2 ^ (p - 1))) \<le> rne (x / u)"
      using scaled_lower [OF assms that(1), of p] unfolding u_def p1 by (rule rne_mono)
    then show ?thesis by (simp only: rne_of_int m_def)
  qed
  show ?thesis using that [of m] fp lo hi nn by (simp add: u_def m_def)
qed

lemma fp_round_zero [simp]: "fp_round p emin 0 = 0"
  by (simp add: fp_round_def)

lemma fp_round_upper:
  assumes "0 < x"
  shows "fp_round p emin x \<le> pow2 (max (expo x) emin + 1)"
proof -
  obtain m where fp: "fp_round p emin x = of_int m * pow2 (max (expo x) emin - int p + 1)"
    and hi: "m \<le> 2 ^ p"
    using fp_round_pos [OF assms, of p emin] by metis
  have p2: "pow2 (int p) = of_int (2 ^ p)"
    using pow2_int_nat [of "int p"] by simp
  have "of_int m * pow2 (max (expo x) emin - int p + 1)
      \<le> pow2 (int p) * pow2 (max (expo x) emin - int p + 1)"
    unfolding p2 using hi by (intro mult_right_mono) (simp_all only: of_int_le_iff, simp)
  also have "\<dots> = pow2 (max (expo x) emin + 1)"
    by (simp add: pow2_add [symmetric])
  finally show ?thesis by (simp add: fp)
qed

lemma fp_round_lower:
  assumes "0 < x" and "emin \<le> expo x" and "0 < p"
  shows "pow2 (expo x) \<le> fp_round p emin x"
proof -
  obtain m where fp: "fp_round p emin x = of_int m * pow2 (max (expo x) emin - int p + 1)"
    and lo: "2 ^ (p - 1) \<le> m"
    using fp_round_pos [OF assms(1), of p emin] assms(2,3) by metis
  have e: "max (expo x) emin = expo x" using assms(2) by simp
  have p1: "pow2 (int p - 1) = of_int (2 ^ (p - 1))"
    using assms(3) pow2_int_nat [of "int p - 1"] by (simp add: nat_diff_distrib')
  have "pow2 (expo x) = pow2 (int p - 1) * pow2 (expo x - int p + 1)"
    by (simp add: pow2_add [symmetric])
  also have "\<dots> \<le> of_int m * pow2 (expo x - int p + 1)"
    unfolding p1 using lo by (intro mult_right_mono) (simp_all only: of_int_le_iff, simp)
  finally show ?thesis by (simp add: fp e)
qed

lemma fp_round_nonneg:
  assumes "0 \<le> x"
  shows "0 \<le> fp_round p emin x"
proof (cases "x = 0")
  case False
  then have x: "0 < x" using assms by simp
  obtain m where "fp_round p emin x = of_int m * pow2 (max (expo x) emin - int p + 1)"
    and "0 \<le> m"
    using fp_round_pos [OF x, of p emin] by metis
  then show ?thesis by simp
qed simp

lemma fp_round_mono:
  assumes "0 \<le> x" and "x \<le> y" and "0 < p"
  shows "fp_round p emin x \<le> fp_round p emin y"
proof (cases "x = 0")
  case True
  then show ?thesis using fp_round_nonneg [of y p emin] assms by simp
next
  case False
  then have x: "0 < x" using assms by simp
  then have y: "0 < y" using assms by simp
  have le: "expo x \<le> expo y" using x assms(2) by (rule expo_mono)
  show ?thesis
  proof (cases "max (expo x) emin = max (expo y) emin")
    case True
    have "rne (x / pow2 (max (expo y) emin - int p + 1))
        \<le> rne (y / pow2 (max (expo y) emin - int p + 1))"
      using assms(2) by (intro rne_mono divide_right_mono) simp_all
    then have "(of_int (rne (x / pow2 (max (expo y) emin - int p + 1))) :: rat)
        \<le> of_int (rne (y / pow2 (max (expo y) emin - int p + 1)))"
      by (simp only: of_int_le_iff)
    then show ?thesis using x y True
      by (simp add: fp_round_def Let_def mult_right_mono)
  next
    case False
    then have lt: "max (expo x) emin < expo y" and ey: "emin \<le> expo y" using le by auto
    from lt have "max (expo x) emin + 1 \<le> expo y" by linarith
    then have "pow2 (max (expo x) emin + 1) \<le> pow2 (expo y)" by (simp only: pow2_le_iff)
    with fp_round_upper [OF x, of p emin] fp_round_lower [OF y ey assms(3)]
    show ?thesis by linarith
  qed
qed

lemma expo_ge:
  assumes "pow2 e \<le> x"
  shows "e \<le> expo x"
proof -
  have x: "0 < x" using assms pow2_pos [of e] by linarith
  then have "x < pow2 (expo x + 1)" using expo_bounds(2) [of x] by simp
  with assms have "pow2 e < pow2 (expo x + 1)" by linarith
  then show ?thesis by simp
qed

lemma fp_round_err:
  assumes "pow2 emin \<le> x"
  shows "\<bar>fp_round p emin x - x\<bar> \<le> x / 2 ^ p"
proof -
  have x: "0 < x" using assms pow2_pos [of emin] by linarith
  have e: "max (expo x) emin = expo x" using expo_ge [OF assms] by simp
  define u where "u = pow2 (expo x - int p + 1)"
  have u: "0 < u" by (simp add: u_def)
  have nz: "x \<noteq> 0" using x by simp
  have fp: "fp_round p emin x = of_int (rne (x / u)) * u"
    using x by (simp add: fp_round_def Let_def u_def e)
  have "fp_round p emin x - x = (of_int (rne (x / u)) - x / u) * u"
    using u by (simp add: fp left_diff_distrib)
  then have "\<bar>fp_round p emin x - x\<bar> = \<bar>of_int (rne (x / u)) - x / u\<bar> * u"
    using u by (simp add: abs_mult)
  also have "\<dots> \<le> 1 / 2 * u"
    using rne_err [of "x / u"] u by (intro mult_right_mono) simp_all
  also have "\<dots> = pow2 (expo x) / 2 ^ p"
  proof -
    have "expo x - int p + 1 = (expo x + 1) - int p" by simp
    then have "pow2 (expo x - int p + 1) = pow2 (expo x + 1) / pow2 (int p)"
      by (simp only: pow2_diff)
    then have "pow2 (expo x - int p + 1) = pow2 (expo x) * pow2 1 / pow2 (int p)"
      by (simp only: pow2_add)
    then show ?thesis by (simp add: u_def pow2_nat) (simp add: pow2_def)
  qed
  also have "\<dots> \<le> x / 2 ^ p"
    using expo_bounds(1) [OF nz] x by (intro divide_right_mono) simp_all
  finally show ?thesis .
qed

subsection \<open>Representable numbers\<close>

lemma pow2_not_neg [simp]: "\<not> pow2 k < 0"
  by (simp add: not_less)

lemma pow2_not_le0 [simp]: "\<not> pow2 k \<le> 0"
  by (simp add: not_le)

lemma pow2_neq_0 [simp]: "pow2 k \<noteq> 0"
  using pow2_pos [of k] by (rule less_imp_neq [symmetric])

lemma representable_0 [simp]: "representable p emin 0"
  unfolding representable_def
  by (rule exI [of _ 0], rule exI [of _ "emin - int p + 1"]) simp

lemma representable_fp_round:
  assumes "0 \<le> x" and "0 < p"
  shows "representable p emin (fp_round p emin x)"
proof (cases "x = 0")
  case False
  then have x: "0 < x" using assms by simp
  define k where "k = max (expo x) emin - int p + 1"
  obtain m where fp: "fp_round p emin x = of_int m * pow2 k"
    and m0: "0 \<le> m" and hi: "m \<le> 2 ^ p"
    using fp_round_pos [OF x, of p emin] unfolding k_def by metis
  have k: "emin - int p + 1 \<le> k" by (simp add: k_def)
  show ?thesis
  proof (cases "m = 2 ^ p")
    case True
    have "(2::int) ^ p = 2 ^ (p - 1) * 2" using assms(2) by (cases p) simp_all
    then have "(of_int m :: rat) = of_int (2 ^ (p - 1)) * pow2 1"
      using True by (simp add: pow2_def)
    then have "fp_round p emin x = of_int (2 ^ (p - 1)) * pow2 (1 + k)"
      by (simp only: fp pow2_add mult.assoc)
    moreover have "\<bar>(2::int) ^ (p - 1)\<bar> < 2 ^ p" using assms(2) by simp
    moreover have "emin - int p + 1 \<le> 1 + k" using k by simp
    ultimately show ?thesis unfolding representable_def by blast
  next
    case False
    then have "\<bar>m\<bar> < 2 ^ p" using hi m0 by simp
    then show ?thesis unfolding representable_def using fp k by blast
  qed
qed simp

lemma fp_round_representable:
  assumes "representable p emin x" and "0 \<le> x"
  shows "fp_round p emin x = x"
proof (cases "x = 0")
  case False
  then have x: "0 < x" using assms by simp
  obtain m k where xm: "x = of_int m * pow2 k" and m: "\<bar>m\<bar> < 2 ^ p"
    and k: "emin - int p + 1 \<le> k"
    using assms(1) unfolding representable_def by blast
  have mpos: "0 < m"
  proof -
    have "0 < of_int m * pow2 k" using x xm by simp
    then have "(0::rat) < of_int m" by (simp add: zero_less_mult_iff)
    then show ?thesis by simp
  qed
  define e where "e = max (expo x) emin"
  have "pow2 (expo x) \<le> x" using expo_bounds(1) [of x] x by simp
  also have "x < of_int (2 ^ p) * pow2 k"
    unfolding xm using m mpos by (intro mult_strict_right_mono) (simp_all only: of_int_less_iff, simp)
  also have "\<dots> = pow2 (int p + k)" by (simp add: pow2_add pow2_nat)
  finally have "expo x < int p + k" by simp
  then have j: "0 \<le> k - (e - int p + 1)" using k by (simp add: e_def)
  define j where "j = nat (k - (e - int p + 1))"
  have kj: "k = int j + (e - int p + 1)" using j by (simp add: j_def)
  have "x = of_int m * pow2 (int j) * pow2 (e - int p + 1)"
    unfolding xm by (subst kj) (simp only: pow2_add mult.assoc)
  then have xs: "x = of_int (m * 2 ^ j) * pow2 (e - int p + 1)"
    by (simp add: pow2_nat)
  then have "x / pow2 (e - int p + 1) = of_int (m * 2 ^ j)"
    by simp
  then have "rne (x / pow2 (e - int p + 1)) = m * 2 ^ j"
    by (simp only: rne_of_int)
  then have "fp_round p emin x = of_int (m * 2 ^ j) * pow2 (e - int p + 1)"
    using False by (simp add: fp_round_def Let_def e_def)
  then show ?thesis using xs by simp
qed simp

lemma representable_frac:
  assumes "representable p emin x" and "0 \<le> x"
  shows "representable p emin (x - of_int \<lfloor>x\<rfloor>)"
proof -
  obtain m k where xm: "x = of_int m * pow2 k" and m: "\<bar>m\<bar> < 2 ^ p"
    and k: "emin - int p + 1 \<le> k"
    using assms(1) unfolding representable_def by blast
  show ?thesis
  proof (cases "0 \<le> k")
    case True
    then have "x = of_int (m * 2 ^ nat k)" by (simp add: xm pow2_def)
    then have "x - of_int \<lfloor>x\<rfloor> = 0" by simp
    then show ?thesis by simp
  next
    case False
    define n where "n = \<lfloor>x\<rfloor>"
    have n0: "0 \<le> n" using assms(2) by (simp add: n_def)
    have m0: "0 \<le> m"
    proof -
      have "0 \<le> of_int m * pow2 k" using assms(2) xm by simp
      then have "(0::rat) \<le> of_int m" by (simp add: zero_le_mult_iff)
      then show ?thesis by simp
    qed
    define m' where "m' = m - n * 2 ^ nat (- k)"
    have one: "pow2 (- k) * pow2 k = 1" by (simp add: pow2_add [symmetric])
    have pk: "pow2 (- k) = of_int (2 ^ nat (- k))" using False by (simp add: pow2_def)
    have "of_int m' * pow2 k = of_int m * pow2 k - of_int n * (pow2 (- k) * pow2 k)"
      by (simp add: m'_def pk left_diff_distrib)
    then have eq: "x - of_int n = of_int m' * pow2 k" by (simp add: xm one)
    have "0 \<le> x - of_int n" unfolding n_def by linarith
    then have "0 \<le> of_int m' * pow2 k" by (simp only: eq)
    then have "(0::rat) \<le> of_int m'" by (simp add: zero_le_mult_iff)
    then have m'0: "0 \<le> m'" by simp
    have "m' \<le> m" using n0 by (simp add: m'_def)
    then have "\<bar>m'\<bar> < 2 ^ p" using m m'0 m0 by simp
    then show ?thesis unfolding representable_def n_def [symmetric] using eq k by blast
  qed
qed

lemma representable_below_one:
  assumes "representable p emin r" and "0 \<le> r" and "r < 1" and "0 < p"
  shows "r \<le> 1 - 1 / 2 ^ p"
proof -
  obtain m k where rm: "r = of_int m * pow2 k" and m: "\<bar>m\<bar> < 2 ^ p"
    using assms(1) unfolding representable_def by blast
  have m0: "0 \<le> m"
  proof -
    have "0 \<le> of_int m * pow2 k" using assms(2) rm by simp
    then have "(0::rat) \<le> of_int m" by (simp add: zero_le_mult_iff)
    then show ?thesis by simp
  qed
  show ?thesis
  proof (cases "- int p \<le> k")
    case True
    define N where "N = m * 2 ^ nat (k + int p)"
    have "r * 2 ^ p = of_int m * (pow2 k * pow2 (int p))" by (simp add: rm pow2_nat)
    also have "\<dots> = of_int m * pow2 (k + int p)" by (simp only: pow2_add)
    also have "\<dots> = of_int N" using True by (simp add: N_def pow2_def)
    finally have rN: "r * 2 ^ p = of_int N" .
    have "r * 2 ^ p < 1 * 2 ^ p" using assms(3) by (intro mult_strict_right_mono) simp_all
    then have "(of_int N :: rat) < of_int (2 ^ p)" by (simp add: rN)
    then have "N < 2 ^ p" by (simp only: of_int_less_iff)
    then have "N \<le> 2 ^ p - 1" by simp
    then have "(of_int N :: rat) \<le> of_int (2 ^ p - 1)" by (simp only: of_int_le_iff)
    then have "r * 2 ^ p \<le> 2 ^ p - 1" by (simp add: rN)
    then have "r \<le> (2 ^ p - 1) / 2 ^ p" by (simp add: pos_le_divide_eq)
    then show ?thesis by (simp add: diff_divide_distrib)
  next
    case False
    then have k: "k \<le> - int p - 1" by simp
    have "r \<le> of_int (2 ^ p) * pow2 k"
      unfolding rm using m m0 by (intro mult_right_mono) (simp_all only: of_int_le_iff, simp_all)
    also have "\<dots> = pow2 (int p + k)" by (simp add: pow2_add pow2_nat)
    also have "\<dots> \<le> pow2 (- 1)" using k by simp
    also have "\<dots> = 1 / 2" by (simp add: pow2_def)
    also have "\<dots> \<le> 1 - 1 / 2 ^ p"
    proof -
      have "(2::rat) ^ 1 \<le> 2 ^ p" using assms(4) by (intro power_increasing) simp_all
      then have "1 / (2::rat) ^ p \<le> 1 / 2 ^ 1" by (intro divide_left_mono) simp_all
      then show ?thesis by simp
    qed
    finally show ?thesis .
  qed
qed

subsection \<open>Digits\<close>

lemma f64_ten: "f64 (10 * (1 - 1 / 2 ^ 53)) = 10 - 1 / 2 ^ 49"
  by code_simp

lemma rounding_3: "rounding 3 (1 / 2) = 1152921504606847 / 2305843009213693952"
  by code_simp

lemma f64_4096: "f64 4096 = 4096"
  by code_simp

lemma f64_33: "f64 (33 / 10) = 3715469692580659 / 1125899906842624"
  by code_simp

lemma f64_nonneg: "0 \<le> x \<Longrightarrow> 0 \<le> f64 x"
  unfolding f64_def by (rule fp_round_nonneg)

lemma f64_mono: "0 \<le> x \<Longrightarrow> x \<le> y \<Longrightarrow> f64 x \<le> f64 y"
  unfolding f64_def by (rule fp_round_mono) simp_all

lemma f32_nonneg: "0 \<le> x \<Longrightarrow> 0 \<le> f32 x"
  unfolding f32_def by (rule fp_round_nonneg)

lemma f32_mono: "0 \<le> x \<Longrightarrow> x \<le> y \<Longrightarrow> f32 x \<le> f32 y"
  unfolding f32_def by (rule fp_round_mono) simp_all

lemma f64_representable: "0 \<le> x \<Longrightarrow> representable 53 (- 1022) (f64 x)"
  unfolding f64_def by (rule representable_fp_round) simp_all

lemma f64_id: "representable 53 (- 1022) x \<Longrightarrow> 0 \<le> x \<Longrightarrow> f64 x = x"
  unfolding f64_def by (rule fp_round_representable)

lemma digit_char_is_digit:
  assumes "d < 10"
  shows "is_digit (digit_char d)"
proof -
  have "d = 0 \<or> d = 1 \<or> d = 2 \<or> d = 3 \<or> d = 4 \<or> d = 5 \<or> d = 6 \<or> d = 7 \<or> d = 8 \<or> d = 9"
    using assms by arith
  moreover have "is_digit (digit_char 0)" "is_digit (digit_char 1)" "is_digit (digit_char 2)"
    "is_digit (digit_char 3)" "is_digit (digit_char 4)" "is_digit (digit_char 5)"
    "is_digit (digit_char 6)" "is_digit (digit_char 7)" "is_digit (digit_char 8)"
    "is_digit (digit_char 9)"
    by code_simp+
  ultimately show ?thesis by blast
qed

lemma dec_digit: "n < 10 \<Longrightarrow> dec n = [digit_char n]"
  by (simp add: dec.simps)

lemma dec_digits: "list_all is_digit (dec n)"
proof (induction n rule: dec.induct)
  case (1 n)
  show ?case
  proof (cases "n < 10")
    case True
    then show ?thesis by (simp add: dec_digit digit_char_is_digit)
  next
    case False
    have "dec n = dec (n div 10) @ [digit_char (n mod 10)]"
      using False by (subst dec.simps) simp
    moreover have "list_all is_digit (dec (n div 10))" using 1 False by simp
    moreover have "is_digit (digit_char (n mod 10))" by (rule digit_char_is_digit) simp
    ultimately show ?thesis by simp
  qed
qed

lemma dec_nonempty: "dec n \<noteq> []"
proof (cases "n < 10")
  case True
  then show ?thesis by (simp add: dec_digit)
next
  case False
  have "dec n = dec (n div 10) @ [digit_char (n mod 10)]"
    using False by (subst dec.simps) simp
  then show ?thesis by simp
qed

lemma digit_step:
  assumes "representable 53 (- 1022) r" and "0 \<le> r" and "r < 1"
  shows "0 \<le> f64 (r * 10)" and "f64 (r * 10) < 10" and "representable 53 (- 1022) (f64 (r * 10))"
proof -
  have r10: "0 \<le> r * 10" using assms(2) by simp
  show "0 \<le> f64 (r * 10)" using r10 by (rule f64_nonneg)
  show "representable 53 (- 1022) (f64 (r * 10))" using r10 by (rule f64_representable)
  have "r \<le> 1 - 1 / 2 ^ 53" using assms by (intro representable_below_one) simp_all
  then have "r * 10 \<le> 10 * (1 - 1 / 2 ^ 53)" by simp
  then have "f64 (r * 10) \<le> f64 (10 * (1 - 1 / 2 ^ 53))" using r10 by (intro f64_mono)
  also have "\<dots> < 10" by (simp only: f64_ten) simp
  finally show "f64 (r * 10) < 10" .
qed

lemma frac_step:
  assumes "representable 53 (- 1022) x" and "0 \<le> x"
  shows "trunc x = \<lfloor>x\<rfloor>" and "0 \<le> \<lfloor>x\<rfloor>"
    and "f64 (x - of_int (trunc x)) = x - of_int \<lfloor>x\<rfloor>"
    and "representable 53 (- 1022) (x - of_int \<lfloor>x\<rfloor>)"
    and "0 \<le> x - of_int \<lfloor>x\<rfloor>" and "x - of_int \<lfloor>x\<rfloor> < 1"
proof -
  show t: "trunc x = \<lfloor>x\<rfloor>" using assms(2) by (simp add: trunc_def)
  show "0 \<le> \<lfloor>x\<rfloor>" using assms(2) by simp
  show rep: "representable 53 (- 1022) (x - of_int \<lfloor>x\<rfloor>)" using assms by (rule representable_frac)
  show nn: "0 \<le> x - of_int \<lfloor>x\<rfloor>" by linarith
  show "x - of_int \<lfloor>x\<rfloor> < 1" by linarith
  show "f64 (x - of_int (trunc x)) = x - of_int \<lfloor>x\<rfloor>"
    unfolding t using rep nn by (rule f64_id)
qed

lemma frac_digits_shape:
  assumes "representable 53 (- 1022) r" and "0 \<le> r" and "r < 1"
  shows "length (frac_digits n r) = n \<and> list_all is_digit (frac_digits n r)"
  using assms
proof (induction n arbitrary: r)
  case 0
  then show ?case by simp
next
  case (Suc n)
  define r1 where "r1 = f64 (r * 10)"
  have r1: "0 \<le> r1" "r1 < 10" "representable 53 (- 1022) r1"
    unfolding r1_def using Suc.prems by (rule digit_step)+
  note fs = frac_step [OF r1(3) r1(1)]
  have "\<lfloor>r1\<rfloor> < 10" using r1(2) floor_less_iff [of r1 10] by simp
  then have d: "nat \<lfloor>r1\<rfloor> < 10" using fs(2) by linarith
  have pi: "print_int (trunc r1) = [digit_char (nat \<lfloor>r1\<rfloor>)]"
    using fs(2) d by (simp add: print_int_def fs(1) dec_digit)
  have IH: "length (frac_digits n (r1 - of_int \<lfloor>r1\<rfloor>)) = n
      \<and> list_all is_digit (frac_digits n (r1 - of_int \<lfloor>r1\<rfloor>))"
    using fs(4) fs(5) fs(6) by (rule Suc.IH)
  have "frac_digits (Suc n) r = print_int (trunc r1) @ frac_digits n (r1 - of_int \<lfloor>r1\<rfloor>)"
    by (simp add: Let_def r1_def [symmetric] fs(3))
  then show ?case using IH pi d by (simp add: digit_char_is_digit)
qed

lemma printFloat_shape:
  assumes "0 \<le> x" and "x \<le> 4294967040"
  shows "\<exists>n frac. printFloat x 3 = dec n @ ''.'' @ frac
           \<and> length frac = 3 \<and> list_all is_digit frac"
proof -
  define y where "y = f64 (x + rounding 3 (1 / 2))"
  have "0 \<le> x + rounding 3 (1 / 2)" using assms(1) by (simp add: rounding_3)
  then have y: "0 \<le> y" "representable 53 (- 1022) y"
    unfolding y_def by (rule f64_nonneg, rule f64_representable)
  note fs = frac_step [OF y(2) y(1)]
  have nat_y: "(of_nat (nat (trunc y)) :: rat) = of_int (trunc y)"
    using fs(1) fs(2) by simp
  have "printFloat x 3 = dec (nat \<lfloor>y\<rfloor>) @ ''.'' @ frac_digits 3 (y - of_int \<lfloor>y\<rfloor>)"
    using assms by (simp add: printFloat_def Let_def y_def [symmetric] nat_y fs(3)) (simp add: fs(1))
  moreover have "length (frac_digits 3 (y - of_int \<lfloor>y\<rfloor>)) = 3
      \<and> list_all is_digit (frac_digits 3 (y - of_int \<lfloor>y\<rfloor>))"
    using fs(4) fs(5) fs(6) by (rule frac_digits_shape)
  ultimately show ?thesis by blast
qed

subsection \<open>The conversion\<close>

lemma f32_of_nat:
  assumes "n < 2 ^ 24"
  shows "f32 (of_nat n) = of_nat n"
proof -
  have "(of_nat n :: rat) = of_int (int n) * pow2 0" by simp
  moreover have "\<bar>int n\<bar> < 2 ^ 24" using assms by simp
  moreover have "- 126 - int 24 + 1 \<le> (0::int)" by simp
  ultimately have "representable 24 (- 126) (of_nat n)" unfolding representable_def by blast
  then show ?thesis unfolding f32_def by (rule fp_round_representable) simp
qed

lemma unat_16: "unat (raw :: 16 word) \<le> 65535"
proof -
  have "unat raw < 2 ^ LENGTH(16)" by (rule unsigned_less)
  then show ?thesis by simp
qed

lemma to_volt_eq:
  "to_volt raw = f32 (f64 (f64 (of_nat (unat raw) * (3715469692580659 / 1125899906842624)) / 4096))"
proof -
  have "unat raw < 2 ^ 24" using unat_16 [of raw] by simp
  then have "f32 (of_nat (unat raw)) = of_nat (unat raw)" by (rule f32_of_nat)
  then show ?thesis unfolding to_volt_def f64_33 f64_4096 by (simp only:)
qed

lemma to_volt_nonneg: "0 \<le> to_volt raw"
  unfolding to_volt_eq
  by (intro f32_nonneg f64_nonneg divide_nonneg_nonneg mult_nonneg_nonneg of_nat_0_le_iff) simp_all

lemma to_volt_mono:
  assumes "unat a \<le> unat b"
  shows "to_volt a \<le> to_volt b"
proof -
  define c :: rat where "c = 3715469692580659 / 1125899906842624"
  have c: "0 \<le> c" by (simp add: c_def)
  have ab: "(of_nat (unat a) :: rat) \<le> of_nat (unat b)" using assms by (simp only: of_nat_le_iff)
  have 1: "of_nat (unat a) * c \<le> of_nat (unat b) * c"
    using ab c by (rule mult_right_mono)
  have 0: "0 \<le> of_nat (unat a) * c" using c by (intro mult_nonneg_nonneg of_nat_0_le_iff)
  have 2: "f64 (of_nat (unat a) * c) \<le> f64 (of_nat (unat b) * c)"
    using 0 1 by (rule f64_mono)
  have 3: "f64 (of_nat (unat a) * c) / 4096 \<le> f64 (of_nat (unat b) * c) / 4096"
    using 2 by (simp add: divide_right_mono)
  have 4: "0 \<le> f64 (of_nat (unat a) * c) / 4096"
    using f64_nonneg [OF 0] by simp
  have 5: "f64 (f64 (of_nat (unat a) * c) / 4096) \<le> f64 (f64 (of_nat (unat b) * c) / 4096)"
    using 4 3 by (rule f64_mono)
  have 6: "0 \<le> f64 (f64 (of_nat (unat a) * c) / 4096)"
    using 4 by (rule f64_nonneg)
  show ?thesis unfolding to_volt_eq c_def [symmetric] using 6 5 by (rule f32_mono)
qed

lemma to_volt_0: "to_volt 0 = 0"
  by (simp add: to_volt_eq f64_def f32_def)

lemma to_volt_4095: "to_volt 4095 = 27027 / 8192"
proof -
  have "to_volt 4095 = f32 (f64 (f64 (4095 * (3715469692580659 / 1125899906842624)) / 4096))"
    by (simp add: to_volt_eq)
  also have "\<dots> = 27027 / 8192" by code_simp
  finally show ?thesis .
qed

lemma to_volt_4096: "to_volt 4096 = 13841203 / 4194304"
proof -
  have "to_volt 4096 = f32 (f64 (f64 (4096 * (3715469692580659 / 1125899906842624)) / 4096))"
    by (simp add: to_volt_eq)
  also have "\<dots> = 13841203 / 4194304" by code_simp
  finally show ?thesis .
qed

lemma to_volt_65535: "to_volt 65535 = 432531 / 8192"
proof -
  have "to_volt 65535 = f32 (f64 (f64 (65535 * (3715469692580659 / 1125899906842624)) / 4096))"
    by (simp add: to_volt_eq)
  also have "\<dots> = 432531 / 8192" by code_simp
  finally show ?thesis .
qed

lemma to_volt_le: "to_volt raw \<le> 432531 / 8192"
proof -
  have "unat raw \<le> unat (65535 :: 16 word)" using unat_16 [of raw] by simp
  then have "to_volt raw \<le> to_volt 65535" by (rule to_volt_mono)
  then show ?thesis by (simp only: to_volt_65535)
qed

lemma text_0: "printFloat (to_volt 0) 3 = ''0.000''"
  unfolding to_volt_0 by code_simp

lemma text_4096: "printFloat (to_volt 4096) 3 = ''3.300''"
  unfolding to_volt_4096 by code_simp

lemma text_4095: "printFloat (to_volt 4095) 3 = ''3.299''"
  unfolding to_volt_4095 by code_simp

lemma fp_round_rel:
  assumes "pow2 emin \<le> x"
  shows "x * (1 - 1 / 2 ^ p) \<le> fp_round p emin x" and "fp_round p emin x \<le> x * (1 + 1 / 2 ^ p)"
  using fp_round_err [OF assms, of p] by (simp_all add: abs_le_iff algebra_simps)

lemma to_volt_error:
  "\<bar>to_volt raw - of_nat (unat raw) * (33 / 10) / 4096\<bar>
     \<le> of_nat (unat raw) * (33 / 10) / 4096 / 2 ^ 23"
proof (cases "unat raw = 0")
  case True
  have "to_volt raw = 0" unfolding to_volt_eq True by (simp add: f64_def f32_def)
  then show ?thesis by (simp add: True)
next
  case False
  define n :: rat where "n = of_nat (unat raw)"
  define c :: rat where "c = 3715469692580659 / 1125899906842624"
  define E where "E = n * (33 / 10) / 4096"
  define a where "a = n * c"
  define p1 where "p1 = f64 a"
  define p2 where "p2 = f64 (p1 / 4096)"
  define v where "v = f32 p2"
  define eps :: rat where "eps = 1 / 2 ^ 53"
  define del :: rat where "del = 1 / 2 ^ 24"
  have n: "0 < n" using False by (simp add: n_def del: of_nat_unat)
  have v_eq: "to_volt raw = v"
    unfolding to_volt_eq v_def p2_def p1_def a_def n_def c_def ..
  have "1 \<le> unat raw" using False by simp
  then have "(of_nat 1 :: rat) \<le> of_nat (unat raw)" by (simp only: of_nat_le_iff)
  then have n1: "1 \<le> n" by (simp add: n_def del: of_nat_unat)
  have eps: "0 \<le> 1 - eps" "0 \<le> 1 + eps" by (simp_all add: eps_def)
  have del: "0 \<le> 1 - del" "0 \<le> 1 + del" by (simp_all add: del_def)
  have p13: "pow2 (- 13) = 1 / 8192" by (simp add: pow2_def)
  have "pow2 (- 1022) \<le> pow2 (- 13)" "pow2 (- 126) \<le> pow2 (- 13)"
    by (simp_all only: pow2_le_iff)
  then have small: "pow2 (- 1022) \<le> 1 / 8192" "pow2 (- 126) \<le> 1 / 8192"
    by (simp_all only: p13)
  have a3: "3 \<le> a"
  proof -
    have "3 \<le> 1 * c" by (simp add: c_def)
    also have "\<dots> \<le> n * c" using n1 by (intro mult_right_mono) (simp_all add: c_def)
    finally show ?thesis by (simp only: a_def)
  qed
  then have a: "0 < a" and a_norm: "pow2 (- 1022) \<le> a" using small(1) by simp_all
  have p1_lo: "a * (1 - eps) \<le> p1" and p1_hi: "p1 \<le> a * (1 + eps)"
    unfolding p1_def f64_def eps_def using a_norm by (rule fp_round_rel)+
  have p1_2: "2 \<le> p1"
  proof -
    have "2 \<le> 3 * (1 - eps)" by (simp add: eps_def)
    also have "\<dots> \<le> a * (1 - eps)" using a3 eps(1) by (rule mult_right_mono)
    finally show ?thesis using p1_lo by linarith
  qed
  then have b_norm: "pow2 (- 1022) \<le> p1 / 4096" using small(1) by simp
  have p2_lo: "p1 / 4096 * (1 - eps) \<le> p2" and p2_hi: "p2 \<le> p1 / 4096 * (1 + eps)"
    unfolding p2_def f64_def eps_def using b_norm by (rule fp_round_rel)+
  have p2_norm: "pow2 (- 126) \<le> p2"
  proof -
    have "1 / 8192 \<le> 2 / 4096 * (1 - eps)" by (simp add: eps_def)
    also have "\<dots> \<le> p1 / 4096 * (1 - eps)"
      using p1_2 eps(1) by (intro mult_right_mono divide_right_mono) simp_all
    finally show ?thesis using p2_lo small(2) by linarith
  qed
  have v_lo: "p2 * (1 - del) \<le> v" and v_hi: "v \<le> p2 * (1 + del)"
    unfolding v_def f32_def del_def using p2_norm by (rule fp_round_rel)+
  have E: "0 < E" using n by (simp add: E_def)
  have a_lo: "E * (1 - eps) \<le> a / 4096"
  proof -
    have "33 / 10 * (1 - eps) \<le> c" by (simp add: eps_def c_def)
    then have "n * (33 / 10 * (1 - eps)) \<le> n * c" using n by (intro mult_left_mono) simp_all
    then have "n * (33 / 10 * (1 - eps)) / 4096 \<le> n * c / 4096" by (rule divide_right_mono) simp
    moreover have "n * (33 / 10 * (1 - eps)) / 4096 = E * (1 - eps)" by (simp add: E_def)
    ultimately show ?thesis by (simp only: a_def)
  qed
  have a_hi: "a / 4096 \<le> E"
  proof -
    have "c \<le> 33 / 10" by (simp add: c_def)
    then have "n * c \<le> n * (33 / 10)" using n by (intro mult_left_mono) simp_all
    then have "n * c / 4096 \<le> n * (33 / 10) / 4096" by (rule divide_right_mono) simp
    then show ?thesis by (simp only: E_def a_def)
  qed
  have up: "v \<le> E * (1 + 1 / 2 ^ 23)"
  proof -
    have "p1 / 4096 \<le> E * (1 + eps)"
    proof -
      have "p1 / 4096 \<le> a * (1 + eps) / 4096" using p1_hi by (simp add: divide_right_mono)
      also have "\<dots> = a / 4096 * (1 + eps)" by simp
      also have "\<dots> \<le> E * (1 + eps)" using a_hi eps(2) by (rule mult_right_mono)
      finally show ?thesis .
    qed
    then have "p1 / 4096 * (1 + eps) \<le> E * (1 + eps) * (1 + eps)"
      using eps(2) by (rule mult_right_mono)
    with p2_hi have "p2 \<le> E * (1 + eps) * (1 + eps)" by linarith
    then have "p2 * (1 + del) \<le> E * (1 + eps) * (1 + eps) * (1 + del)"
      using del(2) by (rule mult_right_mono)
    with v_hi have "v \<le> E * ((1 + eps) * (1 + eps) * (1 + del))" by (simp add: mult.assoc)
    also have "\<dots> \<le> E * (1 + 1 / 2 ^ 23)"
    proof (rule mult_left_mono)
      show "(1 + eps) * (1 + eps) * (1 + del) \<le> 1 + 1 / 2 ^ 23"
        by (simp add: eps_def del_def)
      show "0 \<le> E" using E by simp
    qed
    finally show ?thesis .
  qed
  have down: "E * (1 - 1 / 2 ^ 23) \<le> v"
  proof -
    have "E * (1 - eps) * (1 - eps) \<le> a / 4096 * (1 - eps)"
      using a_lo eps(1) by (rule mult_right_mono)
    also have "\<dots> = a * (1 - eps) / 4096" by simp
    also have "\<dots> \<le> p1 / 4096" using p1_lo by (simp add: divide_right_mono)
    finally have "E * (1 - eps) * (1 - eps) * (1 - eps) \<le> p1 / 4096 * (1 - eps)"
      using eps(1) by (rule mult_right_mono)
    with p2_lo have "E * (1 - eps) * (1 - eps) * (1 - eps) \<le> p2" by linarith
    then have "E * (1 - eps) * (1 - eps) * (1 - eps) * (1 - del) \<le> p2 * (1 - del)"
      using del(1) by (rule mult_right_mono)
    with v_lo have lo: "E * ((1 - eps) * (1 - eps) * (1 - eps) * (1 - del)) \<le> v"
      by (simp add: mult.assoc)
    have "E * (1 - 1 / 2 ^ 23) \<le> E * ((1 - eps) * (1 - eps) * (1 - eps) * (1 - del))"
    proof (rule mult_left_mono)
      show "1 - 1 / 2 ^ 23 \<le> (1 - eps) * (1 - eps) * (1 - eps) * (1 - del)"
        by (simp add: eps_def del_def)
      show "0 \<le> E" using E by simp
    qed
    with lo show ?thesis by linarith
  qed
  have "v - E \<le> E / 2 ^ 23" "- (v - E) \<le> E / 2 ^ 23"
    using up down by (simp_all add: algebra_simps)
  then have "\<bar>v - E\<bar> \<le> E / 2 ^ 23"
    by (rule abs_leI)
  then show ?thesis by (simp only: v_eq E_def n_def)
qed

lemma printFloat_3:
  assumes "0 \<le> x" and "x \<le> 4294967040"
  defines "y \<equiv> f64 (x + rounding 3 (1 / 2))"
  shows "printFloat x 3 = dec (nat \<lfloor>y\<rfloor>) @ ''.'' @ frac_digits 3 (y - of_int \<lfloor>y\<rfloor>)"
proof -
  have "0 \<le> x + rounding 3 (1 / 2)" using assms(1) by (simp add: rounding_3)
  then have y: "0 \<le> y" "representable 53 (- 1022) y"
    unfolding y_def by (rule f64_nonneg, rule f64_representable)
  note fs = frac_step [OF y(2) y(1)]
  have nat_y: "(of_nat (nat (trunc y)) :: rat) = of_int (trunc y)"
    using fs(1) fs(2) by simp
  show ?thesis
    using assms(1,2) by (simp add: printFloat_def Let_def y_def [symmetric] nat_y fs(3)) (simp add: fs(1))
qed

lemma frac_digits_Suc:
  assumes "representable 53 (- 1022) r" and "0 \<le> r" and "r < 1"
  shows "\<exists>rest. frac_digits (Suc n) r = digit_char (nat \<lfloor>f64 (r * 10)\<rfloor>) # rest"
proof -
  define r1 where "r1 = f64 (r * 10)"
  have r1: "0 \<le> r1" "r1 < 10" "representable 53 (- 1022) r1"
    unfolding r1_def using assms by (rule digit_step)+
  note fs = frac_step [OF r1(3) r1(1)]
  have "\<lfloor>r1\<rfloor> < 10" using r1(2) floor_less_iff [of r1 10] by simp
  then have d: "nat \<lfloor>r1\<rfloor> < 10" using fs(2) by linarith
  have pi: "print_int (trunc r1) = [digit_char (nat \<lfloor>r1\<rfloor>)]"
    using fs(2) d by (simp add: print_int_def fs(1) dec_digit)
  have "frac_digits (Suc n) r = print_int (trunc r1) @ frac_digits n (r1 - of_int \<lfloor>r1\<rfloor>)"
    by (simp add: Let_def r1_def [symmetric] fs(3))
  then have "frac_digits (Suc n) r
      = digit_char (nat \<lfloor>r1\<rfloor>) # frac_digits n (r1 - of_int \<lfloor>r1\<rfloor>)"
    by (simp only: pi append_Cons append_Nil)
  then show ?thesis unfolding r1_def by (rule exI)
qed

lemma digit_char_3:
  assumes "d < 10" and "digit_char d = CHR ''3''"
  shows "d = 3"
proof -
  have "d = 0 \<or> d = 1 \<or> d = 2 \<or> d = 3 \<or> d = 4 \<or> d = 5 \<or> d = 6 \<or> d = 7 \<or> d = 8 \<or> d = 9"
    using assms(1) by arith
  moreover have "digit_char 0 \<noteq> CHR ''3''" "digit_char 1 \<noteq> CHR ''3''"
    "digit_char 2 \<noteq> CHR ''3''" "digit_char 4 \<noteq> CHR ''3''" "digit_char 5 \<noteq> CHR ''3''"
    "digit_char 6 \<noteq> CHR ''3''" "digit_char 7 \<noteq> CHR ''3''" "digit_char 8 \<noteq> CHR ''3''"
    "digit_char 9 \<noteq> CHR ''3''"
    by code_simp+
  ultimately show ?thesis using assms(2) by blast
qed

lemma y_4095: "f64 (27027 / 8192 + rounding 3 (1 / 2)) = 7430251090882331 / 2251799813685248"
  unfolding rounding_3 by code_simp

lemma r_4095: "f64 ((7430251090882331 / 2251799813685248 - 3) * 10)
    = 3374258249132935 / 1125899906842624"
  by code_simp

lemma text_below_full_scale:
  assumes "unat raw \<le> 4095"
  shows "printFloat (to_volt raw) 3 \<noteq> ''3.300''"
proof
  assume eq: "printFloat (to_volt raw) 3 = ''3.300''"
  define v where "v = to_volt raw"
  define y where "y = f64 (v + rounding 3 (1 / 2))"
  have v0: "0 \<le> v" unfolding v_def by (rule to_volt_nonneg)
  have "unat raw \<le> unat (4095 :: 16 word)" using assms by simp
  then have "to_volt raw \<le> to_volt 4095" by (rule to_volt_mono)
  then have v1: "v \<le> 27027 / 8192" by (simp only: v_def to_volt_4095)
  have s0: "0 \<le> v + rounding 3 (1 / 2)" using v0 by (simp add: rounding_3)
  have y0: "0 \<le> y" and yrep: "representable 53 (- 1022) y"
    unfolding y_def using s0 by (rule f64_nonneg, rule f64_representable)
  have "y \<le> f64 (27027 / 8192 + rounding 3 (1 / 2))"
    unfolding y_def using s0 v1 by (intro f64_mono) simp_all
  then have y1: "y \<le> 7430251090882331 / 2251799813685248" by (simp only: y_4095)
  note fs = frac_step [OF yrep y0]
  obtain rest where fd: "frac_digits 3 (y - of_int \<lfloor>y\<rfloor>)
      = digit_char (nat \<lfloor>f64 ((y - of_int \<lfloor>y\<rfloor>) * 10)\<rfloor>) # rest"
    using frac_digits_Suc [OF fs(4) fs(5) fs(6), of 2] by (auto simp: numeral_3_eq_3)
  have shape: "printFloat v 3 = dec (nat \<lfloor>y\<rfloor>) @ ''.'' @ frac_digits 3 (y - of_int \<lfloor>y\<rfloor>)"
    unfolding y_def using v0 v1 by (intro printFloat_3) simp_all
  have "y < 4" using y1 by simp
  then have "\<lfloor>y\<rfloor> < 4" using floor_less_iff [of y 4] by simp
  then have n: "nat \<lfloor>y\<rfloor> < 4" using fs(2) by linarith
  then have decn: "dec (nat \<lfloor>y\<rfloor>) = [digit_char (nat \<lfloor>y\<rfloor>)]" by (simp add: dec_digit)
  have "dec (nat \<lfloor>y\<rfloor>) @ ''.'' @ frac_digits 3 (y - of_int \<lfloor>y\<rfloor>) = ''3.300''"
    using eq [folded v_def] by (simp only: shape)
  then have "[digit_char (nat \<lfloor>y\<rfloor>)] @ ''.''
      @ digit_char (nat \<lfloor>f64 ((y - of_int \<lfloor>y\<rfloor>) * 10)\<rfloor>) # rest = ''3.300''"
    by (simp only: fd decn)
  then have c1: "digit_char (nat \<lfloor>y\<rfloor>) = CHR ''3''"
    and c3: "digit_char (nat \<lfloor>f64 ((y - of_int \<lfloor>y\<rfloor>) * 10)\<rfloor>) = CHR ''3''"
    by (simp_all only: append_Cons append_Nil list.inject)
  have n3: "nat \<lfloor>y\<rfloor> = 3" using n c1 by (intro digit_char_3) simp_all
  then have fl: "\<lfloor>y\<rfloor> = 3" by linarith
  have r0: "0 \<le> (y - 3) * 10" using fs(5) by (simp add: fl)
  have "(y - 3) * 10 \<le> (7430251090882331 / 2251799813685248 - 3) * 10" using y1 by simp
  then have "f64 ((y - 3) * 10) \<le> f64 ((7430251090882331 / 2251799813685248 - 3) * 10)"
    using r0 by (intro f64_mono)
  also have "\<dots> = 3374258249132935 / 1125899906842624" by (rule r_4095)
  also have "\<dots> < 3" by simp
  finally have "f64 ((y - 3) * 10) < 3" .
  then have "\<lfloor>f64 ((y - 3) * 10)\<rfloor> < 3" using floor_less_iff [of "f64 ((y - 3) * 10)" 3] by simp
  moreover have "0 \<le> f64 ((y - 3) * 10)" using r0 by (rule f64_nonneg)
  ultimately have d: "nat \<lfloor>f64 ((y - 3) * 10)\<rfloor> < 3" by linarith
  then have "nat \<lfloor>f64 ((y - 3) * 10)\<rfloor> = 3"
    using c3 by (intro digit_char_3) (simp_all add: fl)
  with d show False by simp
qed

subsection \<open>The interrupt service routine\<close>

text \<open>
  C1. Every run of \<open>onTimer\<close> (with the semaphore created, as it is once the alarm is
  enabled) makes exactly these calls, in this order: it reads the level of the LED pin
  and writes the negated level back; it reads the ADC once and stores the reading into
  \<open>val\<close>, whatever \<open>val\<close> held; it gives the semaphore and learns whether a blocked task
  became runnable; it asks for a context switch if and only if one did. The store into
  \<open>val\<close> comes before the give.
\<close>

theorem onTimer_steps:
  assumes "bin_sem s = Some q"
  shows "\<exists>s'. onTimer adc s = Inr s'
    \<and> trace s' = trace s @ [EvDigitalRead pinLed (if gpio s pinLed then 1 else 0),
                            EvDigitalWrite pinLed (if gpio s pinLed then 0 else 1),
                            EvAnalogRead pinAdc adc, EvStoreVal adc,
                            EvSemaphoreGiveFromISR (\<not> signaled q \<and> waiting q)]
                 @ (if \<not> signaled q \<and> waiting q then [EvYieldFromISR] else [])
    \<and> gpio s' pinLed = (\<not> gpio s pinLed) \<and> val s' = adc"
  using assms by (simp add: onTimer_Some)

theorem onTimer_steps_witness:
  "bin_sem ((boot (\<lambda>_. False))\<lparr>bin_sem := Some \<lparr>signaled = False, waiting = True\<rparr>\<rparr>)
     = Some \<lparr>signaled = False, waiting = True\<rparr>
   \<and> (\<exists>s'. onTimer 1234
              ((boot (\<lambda>_. False))\<lparr>bin_sem := Some \<lparr>signaled = False, waiting = True\<rparr>\<rparr>)
            = Inr s'
     \<and> trace s' = [EvDigitalRead 23 0, EvDigitalWrite 23 1, EvAnalogRead 34 1234,
                    EvStoreVal 1234, EvSemaphoreGiveFromISR True, EvYieldFromISR]
     \<and> gpio s' 23 \<and> val s' = 1234)"
  using onTimer_steps [of "(boot (\<lambda>_. False))\<lparr>bin_sem := Some \<lparr>signaled = False, waiting = True\<rparr>\<rparr>"
      "\<lparr>signaled = False, waiting = True\<rparr>" 1234]
  by (simp add: boot_def pinLed_def pinAdc_def)

text \<open>
  C10. The heartbeat is an involution on the level of the LED pin: from either level,
  one run of \<open>onTimer\<close> changes the level, and two runs in a row (nothing else writing
  the pin) bring it back.
\<close>

theorem heartbeat_involution:
  assumes "bin_sem s = Some q"
  shows "\<exists>s1 s2. onTimer a s = Inr s1 \<and> onTimer b s1 = Inr s2
    \<and> gpio s1 pinLed \<noteq> gpio s pinLed \<and> gpio s2 pinLed = gpio s pinLed"
  using assms by (simp add: onTimer_Some)

theorem heartbeat_involution_witness:
  "bin_sem ((boot (\<lambda>_. True))\<lparr>bin_sem := Some \<lparr>signaled = False, waiting = False\<rparr>\<rparr>)
     = Some \<lparr>signaled = False, waiting = False\<rparr>
   \<and> (\<exists>s1 s2. onTimer 7 ((boot (\<lambda>_. True))\<lparr>bin_sem := Some \<lparr>signaled = False, waiting = False\<rparr>\<rparr>)
                = Inr s1
       \<and> onTimer 9 s1 = Inr s2 \<and> \<not> gpio s1 pinLed \<and> gpio s2 pinLed)"
  using heartbeat_involution [of "(boot (\<lambda>_. True))\<lparr>bin_sem := Some \<lparr>signaled = False, waiting = False\<rparr>\<rparr>"
      "\<lparr>signaled = False, waiting = False\<rparr>" 7 9]
  by (simp add: boot_def)

subsection \<open>The task\<close>



text \<open>
  C2. The line that a turn of \<open>printValues\<close> prints is the text of
  \<open>(float) val * 3.3 / 4096.0\<close> with 3 digits after the point: the value converted is
  \<open>val * 3.3 / 4096\<close> up to the rounding of the floating-point operations (a relative
  error of at most \<open>2 ^ -23\<close>), and the text is the digits of the integer part, a
  point, and exactly three digits. The reading 0 is printed as 0.000 and the reading
  4096 as 3.300.
\<close>

theorem conversion_and_text:
  assumes "bin_sem s = Some q" and "signaled q"
  shows "\<exists>s' line. printValues_body s = Inr s' \<and> last (trace s') = EvPrintln line
    \<and> line = printFloat (to_volt (val s)) 3
    \<and> \<bar>to_volt (val s) - of_nat (unat (val s)) * (33 / 10) / 4096\<bar>
        \<le> of_nat (unat (val s)) * (33 / 10) / 4096 / 2 ^ 23
    \<and> (\<exists>n frac. line = dec n @ ''.'' @ frac \<and> dec n \<noteq> [] \<and> list_all is_digit (dec n)
          \<and> length frac = 3 \<and> list_all is_digit frac)
    \<and> printFloat (to_volt 0) 3 = ''0.000'' \<and> printFloat (to_volt 4096) 3 = ''3.300''"
proof -
  have range: "0 \<le> to_volt (val s)" "to_volt (val s) \<le> 4294967040"
    using to_volt_nonneg [of "val s"] to_volt_le [of "val s"] by simp_all
  obtain n frac where shape: "printFloat (to_volt (val s)) 3 = dec n @ ''.'' @ frac"
    and frac: "length frac = 3" "list_all is_digit frac"
    using printFloat_shape [OF range] by blast
  have "last (trace (s\<lparr>bin_sem := Some (q\<lparr>signaled := False\<rparr>),
       trace := trace s @ [EvSemaphoreTake portMAX_DELAY True, EvLoadVal (val s),
                           EvPrintln (printFloat (to_volt (val s)) 3)]\<rparr>))
     = EvPrintln (printFloat (to_volt (val s)) 3)"
    by simp
  then show ?thesis
    using body_signaled [OF assms] shape frac dec_nonempty [of n] dec_digits [of n]
      to_volt_error [of "val s"] text_0 text_4096
    by blast
qed

theorem conversion_and_text_witness:
  "bin_sem ((boot (\<lambda>_. False))\<lparr>bin_sem := Some \<lparr>signaled = True, waiting = False\<rparr>, val := 4096\<rparr>)
     = Some \<lparr>signaled = True, waiting = False\<rparr>
   \<and> signaled \<lparr>signaled = True, waiting = False\<rparr>
   \<and> (\<exists>s'. printValues_body ((boot (\<lambda>_. False))\<lparr>bin_sem := Some \<lparr>signaled = True, waiting = False\<rparr>,
              val := 4096\<rparr>) = Inr s'
        \<and> last (trace s') = EvPrintln ''3.300'')"
proof -
  have "val ((boot (\<lambda>_. False))\<lparr>bin_sem := Some \<lparr>signaled = True, waiting = False\<rparr>, val := 4096\<rparr>)
      = 4096"
    by simp
  then show ?thesis
    using conversion_and_text [of "(boot (\<lambda>_. False))\<lparr>bin_sem := Some \<lparr>signaled = True, waiting = False\<rparr>,
        val := 4096\<rparr>" "\<lparr>signaled = True, waiting = False\<rparr>"]
    by (auto simp: boot_def)
qed

text \<open>
  C9. For every reading the 12-bit converter can give (0 to 4095) the converted value
  is below 3.3, as the formula \<open>raw * 3.3 / 4096\<close> is and as the \<open>float\<close> the task
  computes is; it is below the value of the reading 4096, and it is never printed as
  3.300.
\<close>

theorem below_full_scale:
  assumes "unat raw \<le> 4095"
  shows "of_nat (unat raw) * (33 / 10) / 4096 < (33 / 10 :: rat)
    \<and> to_volt raw < 33 / 10
    \<and> to_volt raw < to_volt 4096
    \<and> printFloat (to_volt raw) 3 \<noteq> ''3.300''"
proof -
  have "(of_nat (unat raw) :: rat) \<le> of_nat 4095" using assms by (simp only: of_nat_le_iff)
  then have "(of_nat (unat raw) :: rat) \<le> 4095" by simp
  then have exact: "of_nat (unat raw) * (33 / 10) / 4096 < (33 / 10 :: rat)" by simp
  have "unat raw \<le> unat (4095 :: 16 word)" using assms by simp
  then have "to_volt raw \<le> to_volt 4095" by (rule to_volt_mono)
  then have le: "to_volt raw \<le> 27027 / 8192" by (simp only: to_volt_4095)
  have "to_volt raw < 33 / 10" using le by simp
  moreover have "to_volt raw < to_volt 4096" using le by (simp add: to_volt_4096)
  ultimately show ?thesis using exact text_below_full_scale [OF assms] by blast
qed

theorem below_full_scale_witness:
  "unat (4095 :: 16 word) \<le> 4095
   \<and> of_nat (unat (4095 :: 16 word)) * (33 / 10) / 4096 < (33 / 10 :: rat)
   \<and> to_volt 4095 < 33 / 10
   \<and> to_volt 4095 < to_volt 4096
   \<and> printFloat (to_volt 4095) 3 \<noteq> ''3.300''"
  using below_full_scale [of 4095] by simp

text \<open>
  C6. A give on a signaled semaphore changes nothing in it, so gives do not add up:
  after any number of timer interrupts in a row, the semaphore is signaled once and
  \<open>val\<close> holds the last reading; the next turn of the task takes the semaphore and
  prints that last reading, and the turn after it is blocked.
\<close>

theorem give_coalescing:
  assumes "bin_sem s = Some q" and "rs \<noteq> []"
  shows "(signaled q \<longrightarrow>
            xSemaphoreGiveFromISR (bin_sem s) s = Inr (False, emit (EvSemaphoreGiveFromISR False) s))
    \<and> (\<exists>s1 s2 s3. isr_burst rs s = Inr s1
          \<and> bin_sem s1 = Some \<lparr>signaled = True, waiting = (signaled q \<and> waiting q)\<rparr>
          \<and> val s1 = last rs
          \<and> printValues_body s1 = Inr s2
          \<and> trace s2 = trace s1 @ [EvSemaphoreTake portMAX_DELAY True, EvLoadVal (last rs),
                                    EvPrintln (printFloat (to_volt (last rs)) 3)]
          \<and> printValues_body s2 = Inl (Blocked, s3) \<and> trace s3 = trace s2)"
proof
  show "signaled q \<longrightarrow>
          xSemaphoreGiveFromISR (bin_sem s) s = Inr (False, emit (EvSemaphoreGiveFromISR False) s)"
    using assms(1) by (simp add: xSemaphoreGiveFromISR_def)
next
  from isr_burst_Some [OF assms] obtain s1 where burst: "isr_burst rs s = Inr s1"
    and sem1: "bin_sem s1 = Some \<lparr>signaled = True, waiting = (signaled q \<and> waiting q)\<rparr>"
    and val1: "val s1 = last rs"
    by blast
  define s2 where "s2 = s1\<lparr>bin_sem := Some \<lparr>signaled = False, waiting = (signaled q \<and> waiting q)\<rparr>,
    trace := trace s1 @ [EvSemaphoreTake portMAX_DELAY True, EvLoadVal (val s1),
                         EvPrintln (printFloat (to_volt (val s1)) 3)]\<rparr>"
  have turn1: "printValues_body s1 = Inr s2"
    using body_signaled [OF sem1] by (simp add: s2_def)
  have sem2: "bin_sem s2 = Some \<lparr>signaled = False, waiting = (signaled q \<and> waiting q)\<rparr>"
    by (simp add: s2_def)
  have turn2: "printValues_body s2 = Inl (Blocked, s2\<lparr>bin_sem := Some \<lparr>signaled = False, waiting = True\<rparr>\<rparr>)"
    using body_blocked [OF sem2] by simp
  show "\<exists>s1 s2 s3. isr_burst rs s = Inr s1
          \<and> bin_sem s1 = Some \<lparr>signaled = True, waiting = (signaled q \<and> waiting q)\<rparr>
          \<and> val s1 = last rs
          \<and> printValues_body s1 = Inr s2
          \<and> trace s2 = trace s1 @ [EvSemaphoreTake portMAX_DELAY True, EvLoadVal (last rs),
                                    EvPrintln (printFloat (to_volt (last rs)) 3)]
          \<and> printValues_body s2 = Inl (Blocked, s3) \<and> trace s3 = trace s2"
    using burst sem1 val1 turn1 turn2 by (simp add: s2_def)
qed

theorem give_coalescing_witness:
  "bin_sem ((boot (\<lambda>_. False))\<lparr>bin_sem := Some \<lparr>signaled = True, waiting = False\<rparr>\<rparr>)
     = Some \<lparr>signaled = True, waiting = False\<rparr>
   \<and> [100, 200, 300 :: 16 word] \<noteq> []
   \<and> xSemaphoreGiveFromISR (Some \<lparr>signaled = True, waiting = False\<rparr>)
        ((boot (\<lambda>_. False))\<lparr>bin_sem := Some \<lparr>signaled = True, waiting = False\<rparr>\<rparr>)
      = Inr (False, emit (EvSemaphoreGiveFromISR False)
               ((boot (\<lambda>_. False))\<lparr>bin_sem := Some \<lparr>signaled = True, waiting = False\<rparr>\<rparr>))
   \<and> (\<exists>s1 s2 s3. isr_burst [100, 200, 300]
                     ((boot (\<lambda>_. False))\<lparr>bin_sem := Some \<lparr>signaled = True, waiting = False\<rparr>\<rparr>)
                   = Inr s1
          \<and> bin_sem s1 = Some \<lparr>signaled = True, waiting = False\<rparr>
          \<and> val s1 = 300
          \<and> printValues_body s1 = Inr s2
          \<and> trace s2 = trace s1 @ [EvSemaphoreTake portMAX_DELAY True, EvLoadVal 300,
                                    EvPrintln (printFloat (to_volt 300) 3)]
          \<and> printValues_body s2 = Inl (Blocked, s3) \<and> trace s3 = trace s2)"
  using give_coalescing [of "(boot (\<lambda>_. False))\<lparr>bin_sem := Some \<lparr>signaled = True, waiting = False\<rparr>\<rparr>"
      "\<lparr>signaled = True, waiting = False\<rparr>" "[100, 200, 300]"]
  by (simp add: boot_def)

subsection \<open>Bring-up\<close>

text \<open>
  C3. \<open>setup\<close> makes its calls in this order: serial port and pause (and the banner),
  creation and check of the semaphore, creation of the task, mode of the LED pin, and
  last the timer: begin, attach the routine, write the alarm, enable the alarm. So in
  no run of \<open>setup\<close> is the alarm enabled before the semaphore and the task exist.
\<close>

theorem bring_up_order:
  "(\<exists>s. setup_sketch True (boot g) = Inr s
      \<and> trace s = [EvSerialBegin 115200, EvTaskDelay 1000, EvPrintln [], EvPrintln banner,
                   EvSemaphoreCreateBinary True,
                   EvTaskCreatePinnedToCore \<lparr>task_code = Fn_printValues,
                     task_name = ''Print values'', task_stack = 1024, task_params = None,
                     task_priority = 2, task_handle_out = None, task_core = APP_CPU_NUM\<rparr>,
                   EvPinMode pinLed OUTPUT, EvTimerBegin 0 timer_divider True,
                   EvTimerAttachInterrupt Fn_onTimer True,
                   EvTimerAlarmWrite timer_max_count True, EvTimerAlarmEnable]
      \<and> last (trace s) = EvTimerAlarmEnable
      \<and> armed s
      \<and> bin_sem s \<noteq> None
      \<and> map task_code (tasks s) = [Fn_printValues])
   \<and> \<not> armed (boot g)
   \<and> (\<forall>sem_ok. created_before_armed False False (events (setup_sketch sem_ok (boot g))))
   \<and> EvTimerAlarmEnable \<notin> set (events (setup_sketch False (boot g)))"
proof -
  have ok: "created_before_armed False False (events (setup_sketch True (boot g)))"
    by (simp add: setup_ok events_def boot_def)
  have fail: "created_before_armed False False (events (setup_sketch False (boot g)))"
    by (simp add: setup_fail events_def boot_def)
  have "created_before_armed False False (events (setup_sketch sem_ok (boot g)))" for sem_ok
    using ok fail by (cases sem_ok) simp_all
  then show ?thesis
    by (simp add: setup_ok setup_fail events_def boot_def armed_def)
qed

text \<open>
  C4. When the creation of the semaphore fails, \<open>setup\<close> prints one diagnostic line,
  restarts the chip once and does nothing more: no task is created, no pin configured,
  no timer set up. When the creation succeeds, there is neither diagnostic nor restart.
\<close>

theorem semaphore_failure_restarts:
  "(\<exists>s. setup_sketch False s0 = Inl (Restart, s)
      \<and> trace s = trace s0 @ [EvSerialBegin 115200, EvTaskDelay 1000, EvPrintln [],
                              EvPrintln banner, EvSemaphoreCreateBinary False,
                              EvPrintln diagnostic, EvRestart]
      \<and> count_list (drop (length (trace s0)) (trace s)) (EvPrintln diagnostic) = 1
      \<and> count_list (drop (length (trace s0)) (trace s)) EvRestart = 1
      \<and> tasks s = tasks s0 \<and> pin_modes s = pin_modes s0 \<and> timer s = timer s0
      \<and> gpio s = gpio s0 \<and> val s = val s0)
   \<and> (\<exists>s. setup_sketch True s0 = Inr s
      \<and> count_list (drop (length (trace s0)) (trace s)) (EvPrintln diagnostic) = 0
      \<and> count_list (drop (length (trace s0)) (trace s)) EvRestart = 0)"
proof
  have differ: "banner \<noteq> diagnostic" "diagnostic \<noteq> []"
    by (simp_all add: banner_def diagnostic_def)
  then show "\<exists>s. setup_sketch False s0 = Inl (Restart, s)
      \<and> trace s = trace s0 @ [EvSerialBegin 115200, EvTaskDelay 1000, EvPrintln [],
                              EvPrintln banner, EvSemaphoreCreateBinary False,
                              EvPrintln diagnostic, EvRestart]
      \<and> count_list (drop (length (trace s0)) (trace s)) (EvPrintln diagnostic) = 1
      \<and> count_list (drop (length (trace s0)) (trace s)) EvRestart = 1
      \<and> tasks s = tasks s0 \<and> pin_modes s = pin_modes s0 \<and> timer s = timer s0
      \<and> gpio s = gpio s0 \<and> val s = val s0"
    by (simp add: setup_fail)
  from differ show "\<exists>s. setup_sketch True s0 = Inr s
      \<and> count_list (drop (length (trace s0)) (trace s)) (EvPrintln diagnostic) = 0
      \<and> count_list (drop (length (trace s0)) (trace s)) EvRestart = 0"
    by (simp add: setup_ok)
qed

text \<open>
  C7. The task \<open>printValues\<close> is created pinned to one core (\<open>APP_CPU_NUM\<close>, core 1),
  with \<open>NULL\<close> as its parameter, and with priority 2, above the priority 1 of the task
  that runs \<open>setup\<close>.
\<close>

theorem consumer_task_creation:
  "\<exists>s t. setup_sketch True s0 = Inr s
     \<and> tasks s = tasks s0 @ [t]
     \<and> filter (\<lambda>e. case e of EvTaskCreatePinnedToCore _ \<Rightarrow> True | _ \<Rightarrow> False)
          (drop (length (trace s0)) (trace s)) = [EvTaskCreatePinnedToCore t]
     \<and> task_code t = Fn_printValues
     \<and> task_core t = APP_CPU_NUM \<and> APP_CPU_NUM = 1
     \<and> task_params t = None
     \<and> task_priority t = 2 \<and> loopTask_priority < task_priority t"
proof -
  define t where "t = \<lparr>task_code = Fn_printValues, task_name = ''Print values'',
    task_stack = 1024, task_params = None, task_priority = 2, task_handle_out = None,
    task_core = APP_CPU_NUM\<rparr>"
  obtain s where s: "setup_sketch True s0 = Inr s" "tasks s = tasks s0 @ [t]"
    and created: "filter (\<lambda>e. case e of EvTaskCreatePinnedToCore _ \<Rightarrow> True | _ \<Rightarrow> False)
          (drop (length (trace s0)) (trace s)) = [EvTaskCreatePinnedToCore t]"
    by (simp add: setup_ok t_def)
  have "task_code t = Fn_printValues" "task_core t = APP_CPU_NUM" "task_params t = None"
    "task_priority t = 2"
    by (simp_all add: t_def)
  moreover have "APP_CPU_NUM = 1" "loopTask_priority < task_priority t"
    by (simp_all add: t_def APP_CPU_NUM_def loopTask_priority_def)
  ultimately show ?thesis using s created by blast
qed

text \<open>
  C8. The body of \<open>loop\<close> is empty: any number of runs of it leaves the whole state as
  it was, the trace with it, so nothing is written or printed.
\<close>

theorem loop_idle:
  "loop s = s \<and> (loop ^^ n) s = s \<and> trace ((loop ^^ n) s) = trace s"
proof -
  have "(loop ^^ n) s = s"
    by (induction n) (simp_all add: loop_def)
  then show ?thesis by (simp add: loop_def)
qed

end
